theory Spec2Isabelle
  imports Main "HOL-Library.AList" "HOL-Library.Product_Lexorder"
begin

section \<open>Symbols (symbol.h, symbol.cpp)\<close>

text \<open>
  A \<open>SymbolPtr\<close> is a shared pointer to an immutable \<open>Symbol\<close> object. The model keeps
  the object together with its address: equality of pointers is equality of the records,
  and the order of pointers (the order of every \<open>std::set<SymbolPtr>\<close>) is the order of
  \<open>sym_addr\<close>. A null pointer is \<open>None\<close> of an option type. \<open>TokenType\<close> is an enum
  class over \<open>int\<close> with \<open>EOF_TOKEN = 0\<close>.
\<close>

datatype SymbolType = TERMINAL | NONTERMINAL | EPSILON | END_OF_INPUT

type_synonym TokenType = int

definition EOF_TOKEN :: TokenType where
  "EOF_TOKEN = 0"

record Symbol =
  sym_addr :: nat
  sym_name :: string
  sym_type :: SymbolType
  token_type :: TokenType

definition is_terminal :: "Symbol \<Rightarrow> bool" where
  "is_terminal s = (sym_type s = TERMINAL)"

definition is_nonterminal :: "Symbol \<Rightarrow> bool" where
  "is_nonterminal s = (sym_type s = NONTERMINAL)"

definition is_epsilon :: "Symbol \<Rightarrow> bool" where
  "is_epsilon s = (sym_type s = EPSILON)"

definition is_end_of_input :: "Symbol \<Rightarrow> bool" where
  "is_end_of_input s = (sym_type s = END_OF_INPUT)"

text \<open>The two constructors of \<open>Symbol\<close>; the first sets the token type to \<open>EOF_TOKEN\<close>.\<close>

definition mk_symbol :: "nat \<Rightarrow> string \<Rightarrow> SymbolType \<Rightarrow> Symbol" where
  "mk_symbol a n t = \<lparr>sym_addr = a, sym_name = n, sym_type = t, token_type = EOF_TOKEN\<rparr>"

definition mk_terminal :: "nat \<Rightarrow> string \<Rightarrow> TokenType \<Rightarrow> Symbol" where
  "mk_terminal a n tt = \<lparr>sym_addr = a, sym_name = n, sym_type = TERMINAL, token_type = tt\<rparr>"

text \<open>
  \<open>std::set<SymbolPtr>\<close>: a list kept in the order of the addresses; \<open>insert\<close> leaves
  the set alone when the pointer is already a member.
\<close>

definition sym_insert :: "Symbol \<Rightarrow> Symbol list \<Rightarrow> Symbol list" where
  "sym_insert x xs = (if x \<in> set xs then xs else insort_key sym_addr x xs)"

record SymbolTable =
  symbols :: "Symbol list"
  epsilon :: Symbol
  end_of_input :: Symbol

text \<open>
  \<open>SymbolTable::SymbolTable\<close>; \<open>ae\<close> and \<open>ad\<close> are the addresses the two
  \<open>make_shared\<close> calls return. The name of epsilon is the two bytes of the UTF-8
  encoding of the Greek letter.
\<close>

definition epsilon_name :: string where
  "epsilon_name = [CHR 0xCE, CHR 0xB5]"

definition new_SymbolTable :: "nat \<Rightarrow> nat \<Rightarrow> SymbolTable" where
  "new_SymbolTable ae ad =
     (let e = mk_symbol ae epsilon_name EPSILON;
          d = mk_symbol ad ''$'' END_OF_INPUT
      in \<lparr>symbols = sym_insert d (sym_insert e []), epsilon = e, end_of_input = d\<rparr>)"

text \<open>
  \<open>get_terminal\<close> and \<open>get_nonterminal\<close> return the first symbol of the table that
  matches, and otherwise create one at the address \<open>a\<close> given by \<open>make_shared\<close>.
\<close>

definition get_terminal :: "SymbolTable \<Rightarrow> string \<Rightarrow> TokenType \<Rightarrow> nat \<Rightarrow> Symbol \<times> SymbolTable" where
  "get_terminal st n tt a =
     (case find (\<lambda>s. sym_name s = n \<and> is_terminal s \<and> token_type s = tt) (symbols st) of
        Some s \<Rightarrow> (s, st)
      | None \<Rightarrow> (let s = mk_terminal a n tt
                 in (s, st\<lparr>symbols := sym_insert s (symbols st)\<rparr>)))"

definition get_nonterminal :: "SymbolTable \<Rightarrow> string \<Rightarrow> nat \<Rightarrow> Symbol \<times> SymbolTable" where
  "get_nonterminal st n a =
     (case find (\<lambda>s. sym_name s = n \<and> is_nonterminal s) (symbols st) of
        Some s \<Rightarrow> (s, st)
      | None \<Rightarrow> (let s = mk_symbol a n NONTERMINAL
                 in (s, st\<lparr>symbols := sym_insert s (symbols st)\<rparr>)))"

definition get_epsilon :: "SymbolTable \<Rightarrow> Symbol" where
  "get_epsilon st = epsilon st"

definition get_end_of_input :: "SymbolTable \<Rightarrow> Symbol" where
  "get_end_of_input st = end_of_input st"

definition get_terminals :: "SymbolTable \<Rightarrow> Symbol list" where
  "get_terminals st = filter is_terminal (symbols st)"

definition get_nonterminals :: "SymbolTable \<Rightarrow> Symbol list" where
  "get_nonterminals st = filter is_nonterminal (symbols st)"

section \<open>Productions and grammars (grammar.h, grammar.cpp)\<close>

text \<open>
  A \<open>ProductionPtr\<close> is modelled like a \<open>SymbolPtr\<close>: the object with its address.
  The driver and the generator never change a production once it is in the grammar.
\<close>

record Production =
  prod_addr :: nat
  lhs :: Symbol
  rhs :: "Symbol list"

definition is_epsilon_production :: "Production \<Rightarrow> bool" where
  "is_epsilon_production p = (length (rhs p) = 1 \<and> is_epsilon (rhs p ! 0))"

text \<open>
  \<open>std::unordered_map<SymbolPtr, V>\<close> is an association list read with \<open>map_of\<close>;
  its iteration order is never observed (the same holds for the one \<open>std::map\<close> that
  is read with \<open>operator[]\<close>, the lookahead map of an LALR state). \<open>um_touch\<close> is the insertion of a
  default value that \<open>operator[]\<close> performs on a key that is absent.
\<close>

type_synonym 'v umap = "(Symbol \<times> 'v) list"

definition um_get :: "('k \<times> 'v) list \<Rightarrow> 'k \<Rightarrow> 'v \<Rightarrow> 'v" where
  "um_get m k d = (case map_of m k of Some v \<Rightarrow> v | None \<Rightarrow> d)"

definition um_touch :: "('k \<times> 'v) list \<Rightarrow> 'k \<Rightarrow> 'v \<Rightarrow> ('k \<times> 'v) list" where
  "um_touch m k d = (case map_of m k of Some v \<Rightarrow> m | None \<Rightarrow> m @ [(k, d)])"

definition um_set :: "('k \<times> 'v) list \<Rightarrow> 'k \<Rightarrow> 'v \<Rightarrow> ('k \<times> 'v) list" where
  "um_set m k v = AList.update k v m"

record Grammar =
  symbol_table :: SymbolTable
  productions :: "Production list"
  start_symbol :: "Symbol option"
  is_augmented :: bool
  first_sets :: "Symbol list umap"
  follow_sets :: "Symbol list umap"
  epsilon_derivers :: "bool umap"
  first_sets_computed :: bool
  follow_sets_computed :: bool
  epsilon_computed :: bool

definition new_Grammar :: "nat \<Rightarrow> nat \<Rightarrow> Grammar" where
  "new_Grammar ae ad =
     \<lparr>symbol_table = new_SymbolTable ae ad, productions = [], start_symbol = None,
      is_augmented = False, first_sets = [], follow_sets = [], epsilon_derivers = [],
      first_sets_computed = False, follow_sets_computed = False, epsilon_computed = False\<rparr>"

definition clear_cache :: "Grammar \<Rightarrow> Grammar" where
  "clear_cache g =
     g\<lparr>first_sets := [], follow_sets := [], epsilon_derivers := [],
       first_sets_computed := False, follow_sets_computed := False, epsilon_computed := False\<rparr>"

text \<open>\<open>Grammar::add_production(lhs, rhs)\<close>; \<open>a\<close> is the address of the new object.\<close>

definition add_production :: "Grammar \<Rightarrow> Symbol \<Rightarrow> Symbol list \<Rightarrow> nat \<Rightarrow> Production \<times> Grammar" where
  "add_production g l r a =
     (let prod = \<lparr>prod_addr = a, lhs = l, rhs = r\<rparr>
      in (prod, clear_cache (g\<lparr>productions := productions g @ [prod]\<rparr>)))"

definition productions_for :: "Grammar \<Rightarrow> Symbol \<Rightarrow> Production list" where
  "productions_for g symbol = filter (\<lambda>prod. lhs prod = symbol) (productions g)"

definition set_start_symbol :: "Grammar \<Rightarrow> Symbol option \<Rightarrow> Grammar" where
  "set_start_symbol g start = g\<lparr>start_symbol := start\<rparr>"

text \<open>
  \<open>Grammar::augment\<close>. \<open>a_sym\<close> is the address \<open>get_nonterminal\<close> gets from
  \<open>make_shared\<close> when it has to create the symbol, \<open>a_prod\<close> the address of the
  new production. \<open>erase(find(...))\<close> removes the first pointer equal to the new
  production, \<open>insert(begin(), ...)\<close> puts it in front.
\<close>

definition augment :: "Grammar \<Rightarrow> nat \<Rightarrow> nat \<Rightarrow> Grammar" where
  "augment g a_sym a_prod =
     (if is_augmented g \<or> start_symbol g = None then g
      else
        (let start = the (start_symbol g);
             (new_start, st) = get_nonterminal (symbol_table g) (sym_name start @ [CHR 0x27]) a_sym;
             g1 = g\<lparr>symbol_table := st\<rparr>;
             (augment_prod, g2) = add_production g1 new_start [start] a_prod;
             g3 = g2\<lparr>productions := augment_prod # remove1 augment_prod (productions g2)\<rparr>
         in clear_cache (g3\<lparr>start_symbol := Some new_start, is_augmented := True\<rparr>)))"

subsection \<open>Nullable symbols\<close>

fun all_derive_epsilon :: "bool umap \<Rightarrow> Symbol list \<Rightarrow> bool \<times> bool umap" where
  "all_derive_epsilon m [] = (True, m)"
| "all_derive_epsilon m (symbol # rest) =
     (if is_terminal symbol \<or> is_end_of_input symbol then (False, m)
      else (let m1 = um_touch m symbol False
            in if \<not> um_get m1 symbol False then (False, m1)
               else all_derive_epsilon m1 rest))"

definition epsilon_step :: "Production \<Rightarrow> bool umap \<times> bool \<Rightarrow> bool umap \<times> bool" where
  "epsilon_step pr mc =
     (let m1 = um_touch (fst mc) (lhs pr) False
      in if um_get m1 (lhs pr) False then (m1, snd mc)
         else if rhs pr = [] \<or> (length (rhs pr) = 1 \<and> is_epsilon (rhs pr ! 0))
         then (um_set m1 (lhs pr) True, True)
         else (let (all_derive, m2) = all_derive_epsilon m1 (rhs pr)
               in if all_derive then (um_set m2 (lhs pr) True, True) else (m2, snd mc)))"

definition epsilon_pass :: "Production list \<Rightarrow> bool umap \<Rightarrow> bool umap \<times> bool" where
  "epsilon_pass prods m = fold epsilon_step prods (m, False)"

definition eps_measure :: "Production list \<Rightarrow> bool umap \<Rightarrow> nat" where
  "eps_measure prods m = length (filter (\<lambda>p. \<not> um_get m (lhs p) False) prods)"

lemma um_get_touch [simp]: "um_get (um_touch m k d) k' d = um_get m k' d"
  by (auto simp: um_get_def um_touch_def map_add_def split: option.splits)

lemma um_get_set [simp]: "um_get (um_set m k v) k' d = (if k' = k then v else um_get m k' d)"
  by (simp add: um_get_def um_set_def update_conv')

lemma all_derive_epsilon_get [simp]:
  "um_get (snd (all_derive_epsilon m xs)) k False = um_get m k False"
  by (induction xs arbitrary: m) (auto simp: Let_def)

lemma all_derive_epsilon_get':
  "all_derive_epsilon m xs = (b, m') \<Longrightarrow> um_get m' k False = um_get m k False"
  using all_derive_epsilon_get[of m xs k] by simp

lemma epsilon_step_mono:
  "um_get (fst mc) k False \<Longrightarrow> um_get (fst (epsilon_step p mc)) k False"
  by (auto simp: epsilon_step_def Let_def all_derive_epsilon_get' split: prod.splits)

lemma epsilon_fold_mono:
  "um_get (fst mc) k False \<Longrightarrow> um_get (fst (fold epsilon_step ps mc)) k False"
  by (induction ps arbitrary: mc) (simp_all add: epsilon_step_mono)

lemma epsilon_step_changed:
  "snd (epsilon_step p mc) \<Longrightarrow> \<not> snd mc \<Longrightarrow>
     \<not> um_get (fst mc) (lhs p) False \<and> um_get (fst (epsilon_step p mc)) (lhs p) False"
  by (auto simp: epsilon_step_def Let_def split: prod.splits if_splits)

lemma epsilon_fold_changed:
  "snd (fold epsilon_step ps mc) \<Longrightarrow> \<not> snd mc \<Longrightarrow>
     \<exists>p \<in> set ps. \<not> um_get (fst mc) (lhs p) False \<and> um_get (fst (fold epsilon_step ps mc)) (lhs p) False"
proof (induction ps arbitrary: mc)
  case Nil
  then show ?case by simp
next
  case (Cons p ps)
  show ?case
  proof (cases "snd (epsilon_step p mc)")
    case True
    from epsilon_step_changed[OF True Cons.prems(2)]
    have "\<not> um_get (fst mc) (lhs p) False" "um_get (fst (epsilon_step p mc)) (lhs p) False" by auto
    then show ?thesis using epsilon_fold_mono[of "epsilon_step p mc" "lhs p" ps] by auto
  next
    case False
    from Cons.IH[OF _ False] Cons.prems(1)
    obtain q where q: "q \<in> set ps" "\<not> um_get (fst (epsilon_step p mc)) (lhs q) False"
      "um_get (fst (fold epsilon_step ps (epsilon_step p mc))) (lhs q) False" by auto
    then show ?thesis using epsilon_step_mono[of mc "lhs q" p] by auto
  qed
qed

lemma length_filter_less_witness:
  "\<lbrakk>\<And>x. x \<in> set xs \<Longrightarrow> Q x \<Longrightarrow> P x; x \<in> set xs; P x; \<not> Q x\<rbrakk>
     \<Longrightarrow> length (filter Q xs) < length (filter P xs)"
proof (induction xs)
  case Nil
  then show ?case by simp
next
  case (Cons y ys)
  have imp: "\<And>z. z \<in> set ys \<Longrightarrow> Q z \<Longrightarrow> P z"
    using Cons.prems(1) by simp
  have le: "length (filter Q ys) \<le> length (filter P ys)"
    using imp by (induction ys) (auto simp: le_SucI)
  show ?case
  proof (cases "x = y")
    case True
    then show ?thesis using Cons.prems(3,4) le by simp
  next
    case False
    then have "x \<in> set ys" using Cons.prems(2) by simp
    then have "length (filter Q ys) < length (filter P ys)"
      using Cons.IH imp Cons.prems(3,4) by blast
    then show ?thesis using Cons.prems(1)[of y] by auto
  qed
qed

lemma epsilon_pass_decreases:
  assumes "epsilon_pass prods m = (m', True)"
  shows "eps_measure prods m' < eps_measure prods m"
proof -
  have s: "snd (fold epsilon_step prods (m, False))" and f: "fst (fold epsilon_step prods (m, False)) = m'"
    using assms by (simp_all add: epsilon_pass_def)
  from epsilon_fold_changed[OF s] f
  obtain p where p: "p \<in> set prods" "\<not> um_get m (lhs p) False" "um_get m' (lhs p) False" by auto
  have mono: "\<And>q. \<not> um_get m' (lhs q) False \<Longrightarrow> \<not> um_get m (lhs q) False"
    using epsilon_fold_mono[of "(m, False)" _ prods] f by auto
  show ?thesis unfolding eps_measure_def
    by (rule length_filter_less_witness[where x = p]) (use p mono in auto)
qed

function epsilon_loop :: "Production list \<Rightarrow> bool umap \<Rightarrow> bool umap" where
  "epsilon_loop prods m =
     (let (m', changed) = epsilon_pass prods m
      in if changed then epsilon_loop prods m' else m')"
  by pat_completeness auto
termination
  by (relation "measure (\<lambda>(prods, m). eps_measure prods m)") (auto simp: epsilon_pass_decreases)

definition epsilon_init :: "SymbolTable \<Rightarrow> bool umap" where
  "epsilon_init st =
     um_set (fold (\<lambda>nonterminal m. um_set m nonterminal False) (get_nonterminals st) [])
       (get_epsilon st) True"

definition compute_epsilon_derivers :: "Grammar \<Rightarrow> Grammar" where
  "compute_epsilon_derivers g =
     g\<lparr>epsilon_derivers := epsilon_loop (productions g) (epsilon_init (symbol_table g)),
       epsilon_computed := True\<rparr>"

definition derives_epsilon :: "Grammar \<Rightarrow> Symbol \<Rightarrow> bool \<times> Grammar" where
  "derives_epsilon g symbol =
     (let g1 = (if \<not> epsilon_computed g then compute_epsilon_derivers g else g)
      in (case map_of (epsilon_derivers g1) symbol of Some b \<Rightarrow> b | None \<Rightarrow> False, g1))"

subsection \<open>FIRST sets\<close>

definition first_lhs_insert :: "Grammar \<Rightarrow> Symbol \<Rightarrow> Symbol list \<Rightarrow> Grammar" where
  "first_lhs_insert g l xs =
     g\<lparr>first_sets := um_set (first_sets g) l (fold sym_insert xs (um_get (first_sets g) l []))\<rparr>"

fun first_rhs :: "Symbol \<Rightarrow> Symbol list \<Rightarrow> Grammar \<Rightarrow> Grammar" where
  "first_rhs l [] g = g"
| "first_rhs l (symbol # rest) g =
     (let g1 = g\<lparr>first_sets := um_touch (first_sets g) symbol []\<rparr>;
          first_symbol = um_get (first_sets g1) symbol [];
          g2 = first_lhs_insert g1 l (filter (\<lambda>sym. \<not> is_epsilon sym) first_symbol);
          (d, g3) = derives_epsilon g2 symbol
      in if \<not> d then g3
         else if rest = [] then first_lhs_insert g3 l [get_epsilon (symbol_table g3)]
         else first_rhs l rest g3)"

definition first_step :: "Production \<Rightarrow> Grammar \<times> bool \<Rightarrow> Grammar \<times> bool" where
  "first_step pr gc =
     (let g1 = (fst gc)\<lparr>first_sets := um_touch (first_sets (fst gc)) (lhs pr) []\<rparr>;
          old_size = length (um_get (first_sets g1) (lhs pr) []);
          g2 = (if rhs pr = [] then first_lhs_insert g1 (lhs pr) [get_epsilon (symbol_table g1)]
                else first_rhs (lhs pr) (rhs pr) g1)
      in (g2, snd gc \<or> length (um_get (first_sets g2) (lhs pr) []) \<noteq> old_size))"

definition first_pass :: "Grammar \<Rightarrow> Grammar \<times> bool" where
  "first_pass g = fold first_step (productions g) (g, False)"

definition grows :: "'a list \<Rightarrow> 'a list \<Rightarrow> bool" where
  "grows xs ys = (set xs \<subseteq> set ys \<and> length ys + card (set xs) = length xs + card (set ys))"

definition um_ran :: "('k \<times> 'a list) list \<Rightarrow> 'a set" where
  "um_ran m = (\<Union>kv \<in> set m. set (snd kv))"

definition first_univ :: "Grammar \<Rightarrow> Symbol set" where
  "first_univ g = um_ran (first_sets g) \<union> {get_epsilon (symbol_table g)}"

definition first_le :: "Grammar \<Rightarrow> Grammar \<Rightarrow> bool" where
  "first_le g g' =
     (productions g' = productions g \<and> symbol_table g' = symbol_table g
      \<and> follow_sets g' = follow_sets g
      \<and> (\<forall>k. grows (um_get (first_sets g) k []) (um_get (first_sets g') k []))
      \<and> first_univ g' \<subseteq> first_univ g)"

definition first_measure :: "Grammar \<Rightarrow> nat" where
  "first_measure g =
     sum_list (map (\<lambda>p. card (first_univ g - set (um_get (first_sets g) (lhs p) []))) (productions g))"

lemma grows_refl [simp]: "grows xs xs"
  by (simp add: grows_def)

lemma grows_trans: "grows xs ys \<Longrightarrow> grows ys zs \<Longrightarrow> grows xs zs"
  by (auto simp: grows_def)

lemma set_sym_insert [simp]: "set (sym_insert x xs) = insert x (set xs)"
  by (auto simp: sym_insert_def set_insort_key)

lemma set_fold_sym_insert [simp]: "set (fold sym_insert ys xs) = set ys \<union> set xs"
  by (induction ys arbitrary: xs) auto

lemma grows_sym_insert [simp]: "grows xs (sym_insert x xs)"
  by (auto simp: grows_def sym_insert_def set_insort_key insert_absorb)

lemma grows_fold_sym_insert [simp]: "grows xs (fold sym_insert ys xs)"
proof (induction ys arbitrary: xs)
  case Nil
  then show ?case by simp
next
  case (Cons y ys)
  show ?case using grows_trans[OF grows_sym_insert Cons.IH] by simp
qed

lemma first_le_refl [simp]: "first_le g g"
  by (simp add: first_le_def)

lemma first_le_trans:
  assumes "first_le g g'" and "first_le g' g''"
  shows "first_le g g''"
proof -
  have "grows (um_get (first_sets g) k []) (um_get (first_sets g'') k [])" for k
    using assms grows_trans unfolding first_le_def by blast
  moreover have "first_univ g'' \<subseteq> first_univ g"
    using assms unfolding first_le_def by blast
  ultimately show ?thesis using assms unfolding first_le_def by simp
qed

lemma um_get_subset_ran: "set (um_get m k []) \<subseteq> um_ran m"
proof (cases "map_of m k")
  case None
  then show ?thesis by (simp add: um_get_def)
next
  case (Some v)
  then have "(k, v) \<in> set m" by (rule map_of_SomeD)
  then have "set v \<subseteq> um_ran m" by (force simp: um_ran_def)
  then show ?thesis using Some by (simp add: um_get_def)
qed

lemma um_get_subset_univ: "set (um_get (first_sets g) k []) \<subseteq> first_univ g"
  using um_get_subset_ran[of "first_sets g" k] by (auto simp: first_univ_def)

lemma um_ran_touch [simp]: "um_ran (um_touch m k []) = um_ran m"
  by (auto simp: um_ran_def um_touch_def split: option.splits)

lemma first_univ_touch [simp]:
  "first_univ (g\<lparr>first_sets := um_touch (first_sets g) k []\<rparr>) = first_univ g"
  by (simp add: first_univ_def)

lemma first_le_touch [simp]: "first_le g (g\<lparr>first_sets := um_touch (first_sets g) k []\<rparr>)"
  by (simp add: first_le_def)

lemma set_update_subset: "(k', v') \<in> set (AList.update k v m) \<Longrightarrow> (k', v') \<in> set m \<or> v' = v"
  by (induction m) (auto split: if_splits)

lemma ran_um_set_subset: "um_ran (um_set m k v) \<subseteq> um_ran m \<union> set v"
proof
  fix x assume "x \<in> um_ran (um_set m k v)"
  then obtain k' v' where kv: "(k', v') \<in> set (AList.update k v m)" "x \<in> set v'"
    by (auto simp: um_set_def um_ran_def)
  from set_update_subset[OF kv(1)] kv(2)
  show "x \<in> um_ran m \<union> set v" by (force simp: um_ran_def)
qed

lemma um_ran_set_le: "um_ran m \<subseteq> B \<Longrightarrow> set v \<subseteq> B \<Longrightarrow> um_ran (um_set m k v) \<subseteq> B"
  using ran_um_set_subset[of m k v] by blast

lemma um_ran_get_le: "um_ran m \<subseteq> B \<Longrightarrow> set (um_get m k []) \<subseteq> B"
  using um_get_subset_ran[of m k] by blast

lemma first_le_insert:
  assumes "set xs \<subseteq> first_univ g"
  shows "first_le g (first_lhs_insert g l xs)"
proof -
  let ?v = "fold sym_insert xs (um_get (first_sets g) l [])"
  have "set ?v \<subseteq> first_univ g"
    using assms um_get_subset_univ[of g l] by simp
  then have "first_univ (first_lhs_insert g l xs) \<subseteq> first_univ g"
    using ran_um_set_subset[of "first_sets g" l ?v]
    by (auto simp: first_univ_def first_lhs_insert_def)
  then show ?thesis
    by (simp add: first_le_def first_lhs_insert_def)
qed

lemma derives_epsilon_first [simp]:
  "first_sets (snd (derives_epsilon g s)) = first_sets g"
  "productions (snd (derives_epsilon g s)) = productions g"
  "symbol_table (snd (derives_epsilon g s)) = symbol_table g"
  "follow_sets (snd (derives_epsilon g s)) = follow_sets g"
  by (simp_all add: derives_epsilon_def compute_epsilon_derivers_def Let_def)

lemma first_le_derives_epsilon [simp]: "first_le g (snd (derives_epsilon g s))"
  by (simp add: first_le_def first_univ_def)

lemma first_le_epsilon: "first_le g (first_lhs_insert g l [get_epsilon (symbol_table g)])"
  by (rule first_le_insert) (simp add: first_univ_def)

lemma first_le_first_rhs: "first_le g (first_rhs l xs g)"
proof (induction xs arbitrary: g)
  case Nil
  then show ?case by simp
next
  case (Cons symbol rest)
  let ?g1 = "g\<lparr>first_sets := um_touch (first_sets g) symbol []\<rparr>"
  let ?g2 = "first_lhs_insert ?g1 l (filter (\<lambda>sym. \<not> is_epsilon sym) (um_get (first_sets ?g1) symbol []))"
  obtain d g3 where dg: "derives_epsilon ?g2 symbol = (d, g3)"
    by (cases "derives_epsilon ?g2 symbol")
  have 1: "first_le g ?g1" by simp
  have 2: "first_le ?g1 ?g2"
    by (rule first_le_insert) (use um_get_subset_univ[of ?g1 symbol] in auto)
  have 3: "first_le ?g2 g3"
    by (metis dg first_le_derives_epsilon snd_conv)
  have g3: "first_le g g3"
    using first_le_trans[OF first_le_trans[OF 1 2] 3] .
  have 4: "first_le g (first_lhs_insert g3 l [get_epsilon (symbol_table g3)])"
    using first_le_trans[OF g3 first_le_epsilon] .
  have 5: "first_le g (first_rhs l rest g3)"
    using first_le_trans[OF g3 Cons.IH] .
  have "first_rhs l (symbol # rest) g =
          (if \<not> d then g3
           else if rest = [] then first_lhs_insert g3 l [get_epsilon (symbol_table g3)]
           else first_rhs l rest g3)"
    using dg by (simp add: Let_def)
  then show ?case using g3 4 5 by presburger
qed

lemma first_le_first_step: "first_le (fst gc) (fst (first_step p gc))"
proof -
  let ?g1 = "(fst gc)\<lparr>first_sets := um_touch (first_sets (fst gc)) (lhs p) []\<rparr>"
  have 1: "first_le (fst gc) ?g1" by simp
  have "first_le ?g1 (first_lhs_insert ?g1 (lhs p) [get_epsilon (symbol_table ?g1)])"
    by (rule first_le_epsilon)
  moreover have "first_le ?g1 (first_rhs (lhs p) (rhs p) ?g1)"
    by (rule first_le_first_rhs)
  ultimately show ?thesis
    using first_le_trans[OF 1] by (simp add: first_step_def Let_def)
qed

lemma first_le_fold: "first_le (fst gc) (fst (fold first_step ps gc))"
proof (induction ps arbitrary: gc)
  case Nil
  then show ?case by simp
next
  case (Cons p ps)
  show ?case using first_le_trans[OF first_le_first_step Cons.IH] by simp
qed

lemma grows_length: "grows xs ys \<Longrightarrow> length xs \<le> length ys"
  by (auto simp: grows_def dest: card_mono[rotated])

lemma grows_strict: "grows xs ys \<Longrightarrow> length xs \<noteq> length ys \<Longrightarrow> set xs \<subset> set ys"
  by (auto simp: grows_def)

lemma first_le_length:
  "first_le g g' \<Longrightarrow> length (um_get (first_sets g) k []) \<le> length (um_get (first_sets g') k [])"
  by (simp add: first_le_def grows_length)

lemma first_step_changed:
  "snd (first_step p gc) \<Longrightarrow> \<not> snd gc \<Longrightarrow>
     length (um_get (first_sets (fst gc)) (lhs p) []) < length (um_get (first_sets (fst (first_step p gc))) (lhs p) [])"
  using first_le_length[OF first_le_first_step, of gc "lhs p" p]
  by (auto simp: first_step_def Let_def split: if_splits)

lemma first_fold_changed:
  "snd (fold first_step ps gc) \<Longrightarrow> \<not> snd gc \<Longrightarrow>
     \<exists>p \<in> set ps. length (um_get (first_sets (fst gc)) (lhs p) [])
        < length (um_get (first_sets (fst (fold first_step ps gc))) (lhs p) [])"
proof (induction ps arbitrary: gc)
  case Nil
  then show ?case by simp
next
  case (Cons p ps)
  show ?case
  proof (cases "snd (first_step p gc)")
    case True
    have "length (um_get (first_sets (fst (first_step p gc))) (lhs p) [])
            \<le> length (um_get (first_sets (fst (fold first_step ps (first_step p gc)))) (lhs p) [])"
      by (rule first_le_length[OF first_le_fold])
    with first_step_changed[OF True Cons.prems(2)]
    have "length (um_get (first_sets (fst gc)) (lhs p) [])
         < length (um_get (first_sets (fst (fold first_step (p # ps) gc))) (lhs p) [])"
      by simp
    then show ?thesis by (intro bexI[of _ p]) simp_all
  next
    case False
    from Cons.IH[OF _ False] Cons.prems(1)
    obtain q where q: "q \<in> set ps"
      "length (um_get (first_sets (fst (first_step p gc))) (lhs q) [])
         < length (um_get (first_sets (fst (fold first_step ps (first_step p gc)))) (lhs q) [])"
      by auto
    have "length (um_get (first_sets (fst gc)) (lhs q) [])
            \<le> length (um_get (first_sets (fst (first_step p gc))) (lhs q) [])"
      by (rule first_le_length[OF first_le_first_step])
    with q(2) have "length (um_get (first_sets (fst gc)) (lhs q) [])
         < length (um_get (first_sets (fst (fold first_step (p # ps) gc))) (lhs q) [])"
      by simp
    then show ?thesis using q(1) by (intro bexI[of _ q]) simp_all
  qed
qed

lemma finite_um_ran [simp]: "finite (um_ran m)"
  by (simp add: um_ran_def)

lemma finite_first_univ [simp]: "finite (first_univ g)"
  by (simp add: first_univ_def)

lemma sum_list_strict_witness:
  fixes f h :: "'a \<Rightarrow> nat"
  assumes "\<And>x. x \<in> set xs \<Longrightarrow> f x \<le> h x" and "x \<in> set xs" and "f x < h x"
  shows "sum_list (map f xs) < sum_list (map h xs)"
  using assms
proof (induction xs)
  case Nil
  then show ?case by simp
next
  case (Cons y ys)
  have le: "sum_list (map f ys) \<le> sum_list (map h ys)"
    using Cons.prems(1) by (simp add: sum_list_mono)
  show ?case
  proof (cases "x = y")
    case True
    then show ?thesis using Cons.prems(3) le by simp
  next
    case False
    then have "sum_list (map f ys) < sum_list (map h ys)"
      using Cons by auto
    moreover have "f y \<le> h y" using Cons.prems(1) by simp
    ultimately show ?thesis by simp
  qed
qed

lemma first_pass_decreases:
  assumes "first_pass g = (g', True)"
  shows "first_measure g' < first_measure g"
proof -
  have le: "first_le g g'"
    using first_le_fold[of "(g, False)" "productions g"] assms by (simp add: first_pass_def)
  then have prods: "productions g' = productions g" and univ: "first_univ g' \<subseteq> first_univ g"
    and gr: "\<And>k. grows (um_get (first_sets g) k []) (um_get (first_sets g') k [])"
    by (auto simp: first_le_def)
  have sub: "set (um_get (first_sets g) k []) \<subseteq> set (um_get (first_sets g') k [])" for k
    using gr[of k] by (simp add: grows_def)
  from first_fold_changed[of "productions g" "(g, False)"] assms
  obtain p where p: "p \<in> set (productions g)"
    "length (um_get (first_sets g) (lhs p) []) < length (um_get (first_sets g') (lhs p) [])"
    by (auto simp: first_pass_def)
  have strict: "set (um_get (first_sets g) (lhs p) []) \<subset> set (um_get (first_sets g') (lhs p) [])"
    using grows_strict[OF gr[of "lhs p"]] p(2) by simp
  let ?f = "\<lambda>q. card (first_univ g' - set (um_get (first_sets g') (lhs q) []))"
  let ?h = "\<lambda>q. card (first_univ g - set (um_get (first_sets g) (lhs q) []))"
  have "?f q \<le> ?h q" for q
    by (rule card_mono) (use univ sub[of "lhs q"] in auto)
  moreover have "?f p < ?h p"
  proof (rule psubset_card_mono)
    show "finite (first_univ g - set (um_get (first_sets g) (lhs p) []))" by simp
    from strict obtain x where x: "x \<in> set (um_get (first_sets g') (lhs p) [])"
      "x \<notin> set (um_get (first_sets g) (lhs p) [])" by auto
    have "x \<in> first_univ g" using x(1) um_get_subset_univ[of g' "lhs p"] univ by auto
    then show "first_univ g' - set (um_get (first_sets g') (lhs p) [])
       \<subset> first_univ g - set (um_get (first_sets g) (lhs p) [])"
      using x univ sub[of "lhs p"] by auto
  qed
  ultimately have "sum_list (map ?f (productions g)) < sum_list (map ?h (productions g))"
    using p(1) by (intro sum_list_strict_witness[where x = p]) auto
  then show ?thesis by (simp add: first_measure_def prods)
qed

function first_loop :: "Grammar \<Rightarrow> Grammar" where
  "first_loop g =
     (let (g', changed) = first_pass g
      in if changed then first_loop g' else g')"
  by pat_completeness auto
termination
  by (relation "measure first_measure") (auto simp: first_pass_decreases)

definition first_sets_init :: "SymbolTable \<Rightarrow> Symbol list umap" where
  "first_sets_init st =
     (let m0 = fold (\<lambda>terminal m. um_set m terminal (sym_insert terminal (um_get m terminal [])))
                 (get_terminals st) [];
          m1 = um_set m0 (get_epsilon st) (sym_insert (get_epsilon st) (um_get m0 (get_epsilon st) []));
          m2 = um_set m1 (get_end_of_input st)
                 (sym_insert (get_end_of_input st) (um_get m1 (get_end_of_input st) []))
      in fold (\<lambda>nonterminal m. um_set m nonterminal []) (get_nonterminals st) m2)"

definition compute_first_sets :: "Grammar \<Rightarrow> Grammar" where
  "compute_first_sets g =
     (let g1 = first_loop (g\<lparr>first_sets := first_sets_init (symbol_table g)\<rparr>)
      in g1\<lparr>first_sets_computed := True\<rparr>)"

definition first_set :: "Grammar \<Rightarrow> Symbol \<Rightarrow> Symbol list \<times> Grammar" where
  "first_set g symbol =
     (let g1 = (if \<not> first_sets_computed g then compute_first_sets g else g)
      in (case map_of (first_sets g1) symbol of Some s \<Rightarrow> s | None \<Rightarrow> [], g1))"

subsection \<open>FIRST of a sequence, FOLLOW sets\<close>

fun derives_epsilon_seq :: "Grammar \<Rightarrow> Symbol list \<Rightarrow> bool \<times> Grammar" where
  "derives_epsilon_seq g [] = (True, g)"
| "derives_epsilon_seq g (symbol # rest) =
     (let (d, g1) = derives_epsilon g symbol
      in if \<not> d then (False, g1) else derives_epsilon_seq g1 rest)"

fun first_seq_loop :: "Symbol list \<Rightarrow> Symbol list \<Rightarrow> Grammar \<Rightarrow> Symbol list \<times> Grammar" where
  "first_seq_loop [] result g = (result, g)"
| "first_seq_loop (symbol # rest) result g =
     (let (first_i, g1) = first_set g symbol;
          result1 = fold sym_insert (filter (\<lambda>sym. \<not> is_epsilon sym) first_i) result;
          (d, g2) = derives_epsilon g1 symbol
      in if \<not> d then (result1, g2)
         else if rest = [] then
           (let (d2, g3) = derives_epsilon g2 symbol
            in (if d2 then sym_insert (get_epsilon (symbol_table g3)) result1 else result1, g3))
         else first_seq_loop rest result1 g2)"

definition first_set_seq :: "Grammar \<Rightarrow> Symbol list \<Rightarrow> Symbol list \<times> Grammar" where
  "first_set_seq g syms =
     (let (result, g1) = first_seq_loop syms [] g;
          (d, g2) = (if syms = [] then (True, g1) else derives_epsilon_seq g1 syms)
      in (if d then sym_insert (get_epsilon (symbol_table g2)) result else result, g2))"

definition follow_insert :: "Grammar \<Rightarrow> Symbol \<Rightarrow> Symbol list \<Rightarrow> Grammar" where
  "follow_insert g B xs =
     g\<lparr>follow_sets := um_set (follow_sets g) B (fold sym_insert xs (um_get (follow_sets g) B []))\<rparr>"

definition follow_add_lhs :: "Grammar \<Rightarrow> Symbol \<Rightarrow> Symbol \<Rightarrow> Grammar" where
  "follow_add_lhs g A B =
     (let g1 = g\<lparr>follow_sets := um_touch (follow_sets g) A []\<rparr>
      in follow_insert g1 B (um_get (follow_sets g1) A []))"

definition follow_visit :: "Symbol \<Rightarrow> Symbol \<Rightarrow> Symbol list \<Rightarrow> Grammar \<Rightarrow> Grammar" where
  "follow_visit A B beta g1 =
     (if beta = [] then follow_add_lhs g1 A B
      else
        (let (first_beta, g3) = first_set_seq g1 beta;
             g4 = follow_insert g3 B (filter (\<lambda>sym. \<not> is_epsilon sym) first_beta);
             (d, g5) = derives_epsilon_seq g4 beta
         in if d then follow_add_lhs g5 A B else g5))"

fun follow_rhs :: "Symbol \<Rightarrow> Symbol list \<Rightarrow> Grammar \<times> bool \<Rightarrow> Grammar \<times> bool" where
  "follow_rhs A [] gc = gc"
| "follow_rhs A (B # beta) gc =
     (if \<not> is_nonterminal B then follow_rhs A beta gc
      else
        (let g1 = (fst gc)\<lparr>follow_sets := um_touch (follow_sets (fst gc)) B []\<rparr>;
             old_size = length (um_get (follow_sets g1) B []);
             g2 = follow_visit A B beta g1
         in follow_rhs A beta (g2, snd gc \<or> length (um_get (follow_sets g2) B []) \<noteq> old_size)))"

definition follow_step :: "Production \<Rightarrow> Grammar \<times> bool \<Rightarrow> Grammar \<times> bool" where
  "follow_step pr gc = follow_rhs (lhs pr) (rhs pr) gc"

definition follow_pass :: "Grammar \<Rightarrow> Grammar \<times> bool" where
  "follow_pass g = fold follow_step (productions g) (g, False)"

text \<open>Bounds for the termination of the FOLLOW iteration.\<close>

definition first_part :: "Grammar \<Rightarrow> Symbol set" where
  "first_part g =
     um_ran (first_sets g) \<union> set (symbols (symbol_table g))
       \<union> {get_epsilon (symbol_table g), get_end_of_input (symbol_table g)}"

definition aux_le :: "Grammar \<Rightarrow> Grammar \<Rightarrow> bool" where
  "aux_le g g' =
     (productions g' = productions g \<and> symbol_table g' = symbol_table g
      \<and> follow_sets g' = follow_sets g \<and> first_part g' \<subseteq> first_part g)"

definition follow_univ :: "Grammar \<Rightarrow> Symbol set" where
  "follow_univ g = um_ran (follow_sets g) \<union> first_part g"

definition follow_le :: "Grammar \<Rightarrow> Grammar \<Rightarrow> bool" where
  "follow_le g g' =
     (productions g' = productions g \<and> symbol_table g' = symbol_table g
      \<and> (\<forall>k. grows (um_get (follow_sets g) k []) (um_get (follow_sets g') k []))
      \<and> follow_univ g' \<subseteq> follow_univ g)"

definition follow_measure :: "Grammar \<Rightarrow> nat" where
  "follow_measure g =
     sum_list (map (\<lambda>B. card (follow_univ g - set (um_get (follow_sets g) B [])))
                 (concat (map rhs (productions g))))"

lemma first_le_first_loop: "first_le g (first_loop g)"
proof (induction g rule: first_loop.induct)
  case (1 g)
  obtain g' changed where fp: "first_pass g = (g', changed)"
    by (cases "first_pass g")
  have le: "first_le g g'"
    using first_le_fold[of "(g, False)" "productions g"] fp by (simp add: first_pass_def)
  show ?case
  proof (cases changed)
    case True
    then have "first_le g' (first_loop g')" using 1 fp by simp
    then have "first_le g (first_loop g')" using le first_le_trans by blast
    then show ?thesis using fp True by (subst first_loop.simps) simp
  next
    case False
    then show ?thesis using fp le by (subst first_loop.simps) simp
  qed
qed

lemma compute_first_sets_part:
  "um_ran (first_sets (compute_first_sets g))
     \<subseteq> set (symbols (symbol_table g)) \<union> {get_epsilon (symbol_table g), get_end_of_input (symbol_table g)}"
proof -
  let ?st = "symbol_table g"
  let ?B = "set (symbols ?st) \<union> {get_epsilon ?st, get_end_of_input ?st}"
  define m0 where "m0 = fold (\<lambda>terminal m. um_set m terminal (sym_insert terminal (um_get m terminal [])))
                 (get_terminals ?st) []"
  define m1 where "m1 = um_set m0 (get_epsilon ?st) (sym_insert (get_epsilon ?st) (um_get m0 (get_epsilon ?st) []))"
  define m2 where "m2 = um_set m1 (get_end_of_input ?st)
                 (sym_insert (get_end_of_input ?st) (um_get m1 (get_end_of_input ?st) []))"
  define m3 where "m3 = fold (\<lambda>nonterminal m. um_set m nonterminal []) (get_nonterminals ?st) m2"
  have t: "set ks \<subseteq> set (symbols ?st) \<Longrightarrow> um_ran m \<subseteq> ?B \<Longrightarrow>
       um_ran (fold (\<lambda>terminal m. um_set m terminal (sym_insert terminal (um_get m terminal []))) ks m) \<subseteq> ?B"
    for ks :: "Symbol list" and m :: "Symbol list umap"
  proof (induction ks arbitrary: m)
    case Nil
    then show ?case by simp
  next
    case (Cons k ks)
    have "set (sym_insert k (um_get m k [])) \<subseteq> ?B"
      using um_ran_get_le[OF Cons.prems(2), of k] Cons.prems(1) by auto
    then have "um_ran (um_set m k (sym_insert k (um_get m k []))) \<subseteq> ?B"
      using Cons.prems(2) by (rule um_ran_set_le[rotated])
    then show ?case using Cons by simp
  qed
  have m0: "um_ran m0 \<subseteq> ?B"
    unfolding m0_def by (rule t) (auto simp: get_terminals_def um_ran_def)
  have "set (sym_insert (get_epsilon ?st) (um_get m0 (get_epsilon ?st) [])) \<subseteq> ?B"
    using um_ran_get_le[OF m0, of "get_epsilon ?st"] by auto
  then have m1: "um_ran m1 \<subseteq> ?B"
    unfolding m1_def using m0 by (rule um_ran_set_le[rotated])
  have "set (sym_insert (get_end_of_input ?st) (um_get m1 (get_end_of_input ?st) [])) \<subseteq> ?B"
    using um_ran_get_le[OF m1, of "get_end_of_input ?st"] by auto
  then have m2: "um_ran m2 \<subseteq> ?B"
    unfolding m2_def using m1 by (rule um_ran_set_le[rotated])
  have n: "um_ran m \<subseteq> ?B \<Longrightarrow>
       um_ran (fold (\<lambda>nonterminal m. um_set m nonterminal []) ks m) \<subseteq> ?B"
    for ks :: "Symbol list" and m :: "Symbol list umap"
  proof (induction ks arbitrary: m)
    case Nil
    then show ?case by simp
  next
    case (Cons k ks)
    have "um_ran (um_set m k []) \<subseteq> ?B"
      using Cons.prems by (rule um_ran_set_le) simp
    then show ?case using Cons by simp
  qed
  have m3: "um_ran m3 \<subseteq> ?B"
    unfolding m3_def using m2 by (rule n)
  let ?g0 = "g\<lparr>first_sets := m3\<rparr>"
  have "first_univ (first_loop ?g0) \<subseteq> first_univ ?g0"
    using first_le_first_loop[of ?g0] by (simp add: first_le_def)
  moreover have "first_univ ?g0 \<subseteq> ?B" using m3 by (auto simp: first_univ_def)
  ultimately have "um_ran (first_sets (first_loop ?g0)) \<subseteq> ?B"
    by (auto simp: first_univ_def)
  then show ?thesis
    by (simp add: compute_first_sets_def first_sets_init_def Let_def m3_def m2_def m1_def m0_def)
qed


lemma aux_le_refl [simp]: "aux_le g g"
  by (simp add: aux_le_def)

lemma aux_le_trans: "aux_le g g' \<Longrightarrow> aux_le g' g'' \<Longrightarrow> aux_le g g''"
  by (auto simp: aux_le_def)

lemma aux_le_derives_epsilon: "aux_le g (snd (derives_epsilon g s))"
  by (simp add: aux_le_def first_part_def)

lemma compute_first_sets_frame:
  "productions (compute_first_sets g) = productions g"
  "symbol_table (compute_first_sets g) = symbol_table g"
  "follow_sets (compute_first_sets g) = follow_sets g"
  using first_le_first_loop[of "g\<lparr>first_sets := first_sets_init (symbol_table g)\<rparr>"]
  by (simp_all add: compute_first_sets_def Let_def first_le_def)

lemma aux_le_compute_first_sets: "aux_le g (compute_first_sets g)"
  using compute_first_sets_part[of g]
  by (auto simp: aux_le_def compute_first_sets_frame first_part_def)

lemma aux_le_first_set: "aux_le g (snd (first_set g s))"
  by (simp add: first_set_def Let_def aux_le_compute_first_sets)

lemma first_set_subset: "set (fst (first_set g s)) \<subseteq> first_part g"
proof -
  let ?g1 = "if \<not> first_sets_computed g then compute_first_sets g else g"
  have "aux_le g ?g1" by (simp add: aux_le_compute_first_sets)
  then have le: "first_part ?g1 \<subseteq> first_part g" by (simp add: aux_le_def)
  have "set (case map_of (first_sets ?g1) s of Some x \<Rightarrow> x | None \<Rightarrow> []) \<subseteq> um_ran (first_sets ?g1)"
    using um_get_subset_ran[of "first_sets ?g1" s] by (simp add: um_get_def)
  also have "\<dots> \<subseteq> first_part ?g1" by (auto simp: first_part_def)
  finally show ?thesis using le by (simp add: first_set_def Let_def)
qed

lemma aux_le_derives_epsilon_seq: "aux_le g (snd (derives_epsilon_seq g xs))"
proof (induction xs arbitrary: g)
  case Nil
  then show ?case by simp
next
  case (Cons x xs)
  obtain d g1 where dg: "derives_epsilon g x = (d, g1)" by (cases "derives_epsilon g x")
  have 1: "aux_le g g1" by (metis dg aux_le_derives_epsilon snd_conv)
  show ?case using 1 aux_le_trans[OF 1 Cons.IH[of g1]] dg by simp
qed

lemma epsilon_in_first_part: "aux_le g g' \<Longrightarrow> get_epsilon (symbol_table g') \<in> first_part g"
  by (auto simp: aux_le_def first_part_def)

lemma first_seq_loop_props:
  "aux_le g (snd (first_seq_loop xs r g)) \<and> set (fst (first_seq_loop xs r g)) \<subseteq> set r \<union> first_part g"
proof (induction xs arbitrary: r g)
  case Nil
  then show ?case by simp
next
  case (Cons x xs)
  obtain f g1 where fg: "first_set g x = (f, g1)" by (cases "first_set g x")
  obtain d g2 where dg: "derives_epsilon g1 x = (d, g2)" by (cases "derives_epsilon g1 x")
  obtain d2 g3 where dg2: "derives_epsilon g2 x = (d2, g3)" by (cases "derives_epsilon g2 x")
  let ?r1 = "fold sym_insert (filter (\<lambda>sym. \<not> is_epsilon sym) f) r"
  have 1: "aux_le g g1" by (metis fg aux_le_first_set snd_conv)
  have f: "set f \<subseteq> first_part g" by (metis fg first_set_subset fst_conv)
  have 2: "aux_le g g2" using aux_le_trans[OF 1] by (metis dg aux_le_derives_epsilon snd_conv)
  have 3: "aux_le g g3" using aux_le_trans[OF 2] by (metis dg2 aux_le_derives_epsilon snd_conv)
  have r1: "set ?r1 \<subseteq> set r \<union> first_part g" using f by auto
  have e3: "get_epsilon (symbol_table g3) \<in> first_part g" using 3 by (rule epsilon_in_first_part)
  have ih: "aux_le g (snd (first_seq_loop xs ?r1 g2))
     \<and> set (fst (first_seq_loop xs ?r1 g2)) \<subseteq> set r \<union> first_part g"
  proof -
    have "first_part g2 \<subseteq> first_part g" using 2 by (simp add: aux_le_def)
    then show ?thesis using Cons.IH[of g2 ?r1] aux_le_trans[OF 2] r1 by blast
  qed
  have eq: "first_seq_loop (x # xs) r g =
     (if \<not> d then (?r1, g2)
      else if xs = [] then (if d2 then sym_insert (get_epsilon (symbol_table g3)) ?r1 else ?r1, g3)
      else first_seq_loop xs ?r1 g2)"
    using fg dg dg2 by (simp add: Let_def)
  show ?case unfolding eq using 2 3 r1 e3 ih by auto
qed

lemma first_set_seq_props:
  "aux_le g (snd (first_set_seq g xs)) \<and> set (fst (first_set_seq g xs)) \<subseteq> first_part g"
proof -
  obtain r g1 where l: "first_seq_loop xs [] g = (r, g1)" by (cases "first_seq_loop xs [] g")
  obtain d g2 where dg: "(if xs = [] then (True, g1) else derives_epsilon_seq g1 xs) = (d, g2)"
    by (cases "if xs = [] then (True, g1) else derives_epsilon_seq g1 xs")
  have 1: "aux_le g g1" and r: "set r \<subseteq> first_part g"
    using first_seq_loop_props[of g xs "[]"] l by auto
  have "aux_le g1 g2"
    using dg aux_le_derives_epsilon_seq[of g1 xs] by (auto split: if_splits)
  then have 2: "aux_le g g2" using aux_le_trans[OF 1] by blast
  have e: "get_epsilon (symbol_table g2) \<in> first_part g" using 2 by (rule epsilon_in_first_part)
  have "first_set_seq g xs = (if d then sym_insert (get_epsilon (symbol_table g2)) r else r, g2)"
    using l dg by (simp add: first_set_seq_def Let_def)
  then show ?thesis using 2 r e by auto
qed


lemma follow_le_refl [simp]: "follow_le g g"
  by (simp add: follow_le_def)

lemma follow_le_trans:
  assumes "follow_le g g'" and "follow_le g' g''"
  shows "follow_le g g''"
proof -
  have "grows (um_get (follow_sets g) k []) (um_get (follow_sets g'') k [])" for k
    using assms grows_trans unfolding follow_le_def by blast
  moreover have "follow_univ g'' \<subseteq> follow_univ g"
    using assms unfolding follow_le_def by blast
  ultimately show ?thesis using assms unfolding follow_le_def by simp
qed

lemma follow_le_aux: "aux_le g g' \<Longrightarrow> follow_le g g'"
  by (auto simp: aux_le_def follow_le_def follow_univ_def)

lemma first_part_follow_upd [simp]: "first_part (g\<lparr>follow_sets := m\<rparr>) = first_part g"
  by (simp add: first_part_def)

lemma follow_le_touch [simp]: "follow_le g (g\<lparr>follow_sets := um_touch (follow_sets g) k []\<rparr>)"
  by (simp add: follow_le_def follow_univ_def)

lemma follow_get_subset_univ: "set (um_get (follow_sets g) k []) \<subseteq> follow_univ g"
  using um_get_subset_ran[of "follow_sets g" k] by (auto simp: follow_univ_def)

lemma follow_le_insert:
  assumes "follow_le g g3" and "set xs \<subseteq> follow_univ g"
  shows "follow_le g (follow_insert g3 B xs)"
proof -
  let ?v = "fold sym_insert xs (um_get (follow_sets g3) B [])"
  have u3: "follow_univ g3 \<subseteq> follow_univ g" using assms(1) by (simp add: follow_le_def)
  have "set ?v \<subseteq> follow_univ g"
    using assms(2) follow_get_subset_univ[of g3 B] u3 by auto
  moreover have "um_ran (follow_sets g3) \<subseteq> follow_univ g" "first_part g3 \<subseteq> follow_univ g"
    using u3 by (auto simp: follow_univ_def)
  ultimately have "follow_univ (follow_insert g3 B xs) \<subseteq> follow_univ g"
    using ran_um_set_subset[of "follow_sets g3" B ?v]
    by (auto simp: follow_univ_def follow_insert_def)
  moreover have "grows (um_get (follow_sets g) k []) (um_get (follow_sets (follow_insert g3 B xs)) k [])" for k
  proof -
    have 1: "grows (um_get (follow_sets g) k []) (um_get (follow_sets g3) k [])"
      using assms(1) by (simp add: follow_le_def)
    have 2: "grows (um_get (follow_sets g3) k []) (um_get (follow_sets (follow_insert g3 B xs)) k [])"
      by (simp add: follow_insert_def)
    show ?thesis using grows_trans[OF 1 2] .
  qed
  ultimately show ?thesis using assms(1)
    by (simp add: follow_le_def follow_insert_def)
qed

lemma follow_le_add_lhs: "follow_le g (follow_add_lhs g A B)"
proof -
  let ?g1 = "g\<lparr>follow_sets := um_touch (follow_sets g) A []\<rparr>"
  have 1: "follow_le g ?g1" by simp
  have "follow_le ?g1 (follow_insert ?g1 B (um_get (follow_sets ?g1) A []))"
    using follow_get_subset_univ[of ?g1 A] by (intro follow_le_insert) simp_all
  then show ?thesis using follow_le_trans[OF 1] by (simp add: follow_add_lhs_def Let_def)
qed

lemma follow_le_visit: "follow_le g (follow_visit A B beta g)"
proof (cases "beta = []")
  case True
  then show ?thesis by (simp add: follow_visit_def follow_le_add_lhs)
next
  case False
  obtain f g3 where fg: "first_set_seq g beta = (f, g3)" by (cases "first_set_seq g beta")
  let ?g4 = "follow_insert g3 B (filter (\<lambda>sym. \<not> is_epsilon sym) f)"
  obtain d g5 where dg: "derives_epsilon_seq ?g4 beta = (d, g5)" by (cases "derives_epsilon_seq ?g4 beta")
  have a: "aux_le g g3" and f: "set f \<subseteq> first_part g"
    using first_set_seq_props[of g beta] fg by auto
  have 3: "follow_le g g3" using a by (rule follow_le_aux)
  have "set (filter (\<lambda>sym. \<not> is_epsilon sym) f) \<subseteq> follow_univ g"
    using f by (auto simp: follow_univ_def)
  then have 4: "follow_le g ?g4" using 3 by (intro follow_le_insert)
  have "aux_le ?g4 g5" by (metis dg aux_le_derives_epsilon_seq snd_conv)
  then have 5: "follow_le g g5" using follow_le_trans[OF 4 follow_le_aux] by blast
  have 6: "follow_le g (follow_add_lhs g5 A B)"
    using follow_le_trans[OF 5 follow_le_add_lhs] .
  have "follow_visit A B beta g = (if d then follow_add_lhs g5 A B else g5)"
    using False fg dg by (simp add: follow_visit_def Let_def)
  then show ?thesis using 5 6 by simp
qed

lemma follow_le_length:
  "follow_le g g' \<Longrightarrow> length (um_get (follow_sets g) k []) \<le> length (um_get (follow_sets g') k [])"
  by (simp add: follow_le_def grows_length)

lemma follow_rhs_props:
  "follow_le (fst gc) (fst (follow_rhs A xs gc))
   \<and> (snd (follow_rhs A xs gc) \<longrightarrow> \<not> snd gc \<longrightarrow>
        (\<exists>B \<in> set xs. length (um_get (follow_sets (fst gc)) B [])
            < length (um_get (follow_sets (fst (follow_rhs A xs gc))) B [])))"
proof (induction xs arbitrary: gc)
  case Nil
  then show ?case by simp
next
  case (Cons B beta)
  show ?case
  proof (cases "is_nonterminal B")
    case False
    then show ?thesis using Cons.IH[of gc] by simp
  next
    case True
    let ?g1 = "(fst gc)\<lparr>follow_sets := um_touch (follow_sets (fst gc)) B []\<rparr>"
    let ?g2 = "follow_visit A B beta ?g1"
    let ?c = "snd gc \<or> length (um_get (follow_sets ?g2) B []) \<noteq> length (um_get (follow_sets ?g1) B [])"
    let ?r = "follow_rhs A beta (?g2, ?c)"
    have eq: "follow_rhs A (B # beta) gc = ?r"
      using True by (simp add: Let_def)
    have 1: "follow_le (fst gc) ?g1" by simp
    have 2: "follow_le (fst gc) ?g2" using follow_le_trans[OF 1 follow_le_visit] .
    have ih: "follow_le ?g2 (fst ?r)"
      "snd ?r \<Longrightarrow> \<not> ?c \<Longrightarrow> \<exists>B' \<in> set beta. length (um_get (follow_sets ?g2) B' [])
            < length (um_get (follow_sets (fst ?r)) B' [])"
      using Cons.IH[of "(?g2, ?c)"] by auto
    have le: "follow_le (fst gc) (fst ?r)" using follow_le_trans[OF 2 ih(1)] .
    have ch: "\<exists>B' \<in> set (B # beta). length (um_get (follow_sets (fst gc)) B' [])
            < length (um_get (follow_sets (fst ?r)) B' [])" if s: "snd ?r" and n: "\<not> snd gc"
    proof (cases ?c)
      case True
      then have "length (um_get (follow_sets ?g2) B []) \<noteq> length (um_get (follow_sets (fst gc)) B [])"
        using n by simp
      moreover have "length (um_get (follow_sets (fst gc)) B []) \<le> length (um_get (follow_sets ?g2) B [])"
        by (rule follow_le_length[OF 2])
      moreover have "length (um_get (follow_sets ?g2) B []) \<le> length (um_get (follow_sets (fst ?r)) B [])"
        by (rule follow_le_length[OF ih(1)])
      ultimately have "length (um_get (follow_sets (fst gc)) B []) < length (um_get (follow_sets (fst ?r)) B [])"
        by linarith
      then show ?thesis by (intro bexI[of _ B]) simp_all
    next
      case False
      from ih(2)[OF s False] obtain B' where B': "B' \<in> set beta"
        "length (um_get (follow_sets ?g2) B' []) < length (um_get (follow_sets (fst ?r)) B' [])" by blast
      have "length (um_get (follow_sets (fst gc)) B' []) \<le> length (um_get (follow_sets ?g2) B' [])"
        by (rule follow_le_length[OF 2])
      with B'(2) have "length (um_get (follow_sets (fst gc)) B' []) < length (um_get (follow_sets (fst ?r)) B' [])"
        by linarith
      then show ?thesis using B'(1) by (intro bexI[of _ B']) simp_all
    qed
    show ?thesis unfolding eq using le ch by blast
  qed
qed


lemma follow_fold_props:
  "follow_le (fst gc) (fst (fold follow_step ps gc))
   \<and> (snd (fold follow_step ps gc) \<longrightarrow> \<not> snd gc \<longrightarrow>
        (\<exists>B \<in> set (concat (map rhs ps)). length (um_get (follow_sets (fst gc)) B [])
            < length (um_get (follow_sets (fst (fold follow_step ps gc))) B [])))"
proof (induction ps arbitrary: gc)
  case Nil
  then show ?case by simp
next
  case (Cons p ps)
  let ?gc1 = "follow_step p gc"
  let ?r = "fold follow_step ps ?gc1"
  have 1: "follow_le (fst gc) (fst ?gc1)"
    and c1: "snd ?gc1 \<Longrightarrow> \<not> snd gc \<Longrightarrow> \<exists>B \<in> set (rhs p). length (um_get (follow_sets (fst gc)) B [])
            < length (um_get (follow_sets (fst ?gc1)) B [])"
    using follow_rhs_props[of gc "lhs p" "rhs p"] by (auto simp: follow_step_def)
  have 2: "follow_le (fst ?gc1) (fst ?r)"
    and c2: "snd ?r \<Longrightarrow> \<not> snd ?gc1 \<Longrightarrow> \<exists>B \<in> set (concat (map rhs ps)). length (um_get (follow_sets (fst ?gc1)) B [])
            < length (um_get (follow_sets (fst ?r)) B [])"
    using Cons.IH[of ?gc1] by auto
  have le: "follow_le (fst gc) (fst ?r)" using follow_le_trans[OF 1 2] .
  have ch: "\<exists>B \<in> set (concat (map rhs (p # ps))). length (um_get (follow_sets (fst gc)) B [])
            < length (um_get (follow_sets (fst ?r)) B [])" if s: "snd ?r" and n: "\<not> snd gc"
  proof (cases "snd ?gc1")
    case True
    from c1[OF True n] obtain B where B: "B \<in> set (rhs p)"
      "length (um_get (follow_sets (fst gc)) B []) < length (um_get (follow_sets (fst ?gc1)) B [])" by blast
    have "length (um_get (follow_sets (fst ?gc1)) B []) \<le> length (um_get (follow_sets (fst ?r)) B [])"
      by (rule follow_le_length[OF 2])
    with B(2) have "length (um_get (follow_sets (fst gc)) B []) < length (um_get (follow_sets (fst ?r)) B [])"
      by linarith
    then show ?thesis using B(1) by (intro bexI[of _ B]) simp_all
  next
    case False
    from c2[OF s False] obtain B where B: "B \<in> set (concat (map rhs ps))"
      "length (um_get (follow_sets (fst ?gc1)) B []) < length (um_get (follow_sets (fst ?r)) B [])" by blast
    have "length (um_get (follow_sets (fst gc)) B []) \<le> length (um_get (follow_sets (fst ?gc1)) B [])"
      by (rule follow_le_length[OF 1])
    with B(2) have "length (um_get (follow_sets (fst gc)) B []) < length (um_get (follow_sets (fst ?r)) B [])"
      by linarith
    then show ?thesis using B(1) by (intro bexI[of _ B]) simp_all
  qed
  show ?case using le ch by simp
qed

lemma finite_follow_univ [simp]: "finite (follow_univ g)"
  by (simp add: follow_univ_def first_part_def)

lemma follow_pass_decreases:
  assumes "follow_pass g = (g', True)"
  shows "follow_measure g' < follow_measure g"
proof -
  have le: "follow_le g g'"
    using follow_fold_props[of "(g, False)" "productions g"] assms by (simp add: follow_pass_def)
  then have prods: "productions g' = productions g" and univ: "follow_univ g' \<subseteq> follow_univ g"
    and gr: "\<And>k. grows (um_get (follow_sets g) k []) (um_get (follow_sets g') k [])"
    by (auto simp: follow_le_def)
  have sub: "set (um_get (follow_sets g) k []) \<subseteq> set (um_get (follow_sets g') k [])" for k
    using gr[of k] by (simp add: grows_def)
  from follow_fold_props[of "(g, False)" "productions g"] assms
  obtain B where B: "B \<in> set (concat (map rhs (productions g)))"
    "length (um_get (follow_sets g) B []) < length (um_get (follow_sets g') B [])"
    by (auto simp: follow_pass_def)
  have strict: "set (um_get (follow_sets g) B []) \<subset> set (um_get (follow_sets g') B [])"
    using grows_strict[OF gr[of B]] B(2) by simp
  let ?f = "\<lambda>q. card (follow_univ g' - set (um_get (follow_sets g') q []))"
  let ?h = "\<lambda>q. card (follow_univ g - set (um_get (follow_sets g) q []))"
  have "?f q \<le> ?h q" for q
    by (rule card_mono) (use univ sub[of q] in auto)
  moreover have "?f B < ?h B"
  proof (rule psubset_card_mono)
    show "finite (follow_univ g - set (um_get (follow_sets g) B []))" by simp
    from strict obtain x where x: "x \<in> set (um_get (follow_sets g') B [])"
      "x \<notin> set (um_get (follow_sets g) B [])" by auto
    have "x \<in> follow_univ g" using x(1) follow_get_subset_univ[of g' B] univ by auto
    then show "follow_univ g' - set (um_get (follow_sets g') B [])
       \<subset> follow_univ g - set (um_get (follow_sets g) B [])"
      using x univ sub[of B] by auto
  qed
  ultimately have "sum_list (map ?f (concat (map rhs (productions g))))
      < sum_list (map ?h (concat (map rhs (productions g))))"
    using B(1) by (intro sum_list_strict_witness[where x = B]) auto
  then show ?thesis by (simp add: follow_measure_def prods)
qed

function follow_loop :: "Grammar \<Rightarrow> Grammar" where
  "follow_loop g =
     (let (g', changed) = follow_pass g
      in if changed then follow_loop g' else g')"
  by pat_completeness auto
termination
  by (relation "measure follow_measure") (auto simp: follow_pass_decreases)

definition compute_follow_sets :: "Grammar \<Rightarrow> Grammar" where
  "compute_follow_sets g =
     (let g1 = (if \<not> first_sets_computed g then compute_first_sets g else g);
          m0 = fold (\<lambda>nonterminal m. um_set m nonterminal []) (get_nonterminals (symbol_table g1)) [];
          m1 = (case start_symbol g1 of
                  None \<Rightarrow> m0
                | Some start \<Rightarrow>
                    um_set m0 start (sym_insert (get_end_of_input (symbol_table g1)) (um_get m0 start [])));
          g2 = follow_loop (g1\<lparr>follow_sets := m1\<rparr>)
      in g2\<lparr>follow_sets_computed := True\<rparr>)"

definition follow_set :: "Grammar \<Rightarrow> Symbol \<Rightarrow> Symbol list \<times> Grammar" where
  "follow_set g symbol =
     (let g1 = (if \<not> follow_sets_computed g then compute_follow_sets g else g)
      in (case map_of (follow_sets g1) symbol of Some s \<Rightarrow> s | None \<Rightarrow> [], g1))"



subsection \<open>Grammars of the demonstration and test programs\<close>

text \<open>
  \<open>run_demo\<close> and \<open>test_lr0_automaton\<close> build the grammar
  \<open>E -> E + T | T, T -> num\<close> through the symbol table and \<open>add_production\<close>,
  before they call \<open>augment\<close>. The numbers are the addresses of the objects in
  the order of their creation; \<open>PLUS\<close> and \<open>NUMBER\<close> are the values of the enum.
\<close>

definition NUMBER :: TokenType where
  "NUMBER = 3"

definition PLUS :: TokenType where
  "PLUS = 5"

definition demo_grammar :: Grammar where
  "demo_grammar =
     (let g = new_Grammar 0 1;
          (E, st1) = get_nonterminal (symbol_table g) ''E'' 2;
          (T, st2) = get_nonterminal st1 ''T'' 3;
          (plus, st3) = get_terminal st2 ''+'' PLUS 4;
          (num, st4) = get_terminal st3 ''num'' NUMBER 5;
          g1 = g\<lparr>symbol_table := st4\<rparr>;
          g2 = snd (add_production g1 E [E, plus, T] 6);
          g3 = snd (add_production g2 E [T] 7);
          g4 = snd (add_production g3 T [num] 8)
      in set_start_symbol g4 (Some E))"

text \<open>
  A grammar whose symbol table already holds a nonterminal with the name that
  \<open>augment\<close> gives to the new start symbol: \<open>S -> S' , S' -> num\<close>.
\<close>

definition primed_grammar :: Grammar where
  "primed_grammar =
     (let g = new_Grammar 0 1;
          (S, st1) = get_nonterminal (symbol_table g) ''S'' 2;
          (S1, st2) = get_nonterminal st1 [CHR ''S'', CHR 0x27] 3;
          (num, st3) = get_terminal st2 ''num'' NUMBER 4;
          g1 = g\<lparr>symbol_table := st3\<rparr>;
          g2 = snd (add_production g1 S [S1] 5);
          g3 = snd (add_production g2 S1 [num] 6)
      in set_start_symbol g3 (Some S))"

section \<open>The parse table (parse\_table.h, parse\_table.cpp)\<close>

datatype ActionType = SHIFT | REDUCE | ACCEPT | ERROR

record Action =
  act_type :: ActionType
  act_value :: int

text \<open>\<open>Action(t, v = -1)\<close> and the default constructor \<open>Action()\<close>.\<close>

definition mk_action :: "ActionType \<Rightarrow> int \<Rightarrow> Action" where
  "mk_action t v = \<lparr>act_type = t, act_value = v\<rparr>"

definition action1 :: "ActionType \<Rightarrow> Action" where
  "action1 t = mk_action t (-1)"

definition is_shift :: "Action \<Rightarrow> bool" where
  "is_shift a = (act_type a = SHIFT)"

definition is_reduce :: "Action \<Rightarrow> bool" where
  "is_reduce a = (act_type a = REDUCE)"

definition is_accept :: "Action \<Rightarrow> bool" where
  "is_accept a = (act_type a = ACCEPT)"

definition is_error :: "Action \<Rightarrow> bool" where
  "is_error a = (act_type a = ERROR)"

text \<open>\<open>std::to_string\<close> on an \<open>int\<close>: decimal digits, with a minus sign below zero.\<close>

fun nat_to_string :: "nat \<Rightarrow> string" where
  "nat_to_string n =
     (if n < 10 then [''0123456789'' ! n]
      else nat_to_string (n div 10) @ [''0123456789'' ! (n mod 10)])"

definition to_string :: "int \<Rightarrow> string" where
  "to_string i = (if i < 0 then CHR ''-'' # nat_to_string (nat (- i)) else nat_to_string (nat i))"

definition Action_to_string :: "Action \<Rightarrow> string" where
  "Action_to_string a =
     (case act_type a of
        SHIFT \<Rightarrow> ''s'' @ to_string (act_value a)
      | REDUCE \<Rightarrow> ''r'' @ to_string (act_value a)
      | ACCEPT \<Rightarrow> ''acc''
      | ERROR \<Rightarrow> ''err'')"

record ParseTable =
  num_states :: int
  terminals :: "Symbol list"
  nonterminals :: "Symbol list"
  action_table :: "int \<times> Symbol \<rightharpoonup> Action"
  goto_table :: "int \<times> Symbol \<rightharpoonup> int"
  conflicts :: "string list"

definition new_ParseTable :: "int \<Rightarrow> Symbol list \<Rightarrow> Symbol list \<Rightarrow> ParseTable" where
  "new_ParseTable n ts nts =
     \<lparr>num_states = n, terminals = ts, nonterminals = nts,
      action_table = Map.empty, goto_table = Map.empty, conflicts = []\<rparr>"

definition conflict_message :: "int \<Rightarrow> Symbol \<Rightarrow> Action \<Rightarrow> Action \<Rightarrow> string" where
  "conflict_message state terminal existing action =
     ''Action conflict in state '' @ to_string state @ '' on terminal '' @ sym_name terminal
       @ '': existing='' @ Action_to_string existing @ '', new='' @ Action_to_string action"

text \<open>
  \<open>ParseTable::set_action\<close>: a conflict is pushed when the cell holds an action
  of another type or value; the assignment \<open>action_table_[key] = action\<close> follows in
  every case.
\<close>

definition set_action :: "ParseTable \<Rightarrow> int \<Rightarrow> Symbol \<Rightarrow> Action \<Rightarrow> ParseTable" where
  "set_action t state terminal action =
     (let key = (state, terminal);
          t1 = (case action_table t key of
                  Some existing \<Rightarrow>
                    if act_type existing \<noteq> act_type action \<or> act_value existing \<noteq> act_value action
                    then t\<lparr>conflicts := conflicts t @ [conflict_message state terminal existing action]\<rparr>
                    else t
                | None \<Rightarrow> t)
      in t1\<lparr>action_table := (action_table t1)(key \<mapsto> action)\<rparr>)"

definition set_goto :: "ParseTable \<Rightarrow> int \<Rightarrow> Symbol \<Rightarrow> int \<Rightarrow> ParseTable" where
  "set_goto t state nonterminal target_state =
     t\<lparr>goto_table := (goto_table t)((state, nonterminal) \<mapsto> target_state)\<rparr>"

definition get_action :: "ParseTable \<Rightarrow> int \<Rightarrow> Symbol \<Rightarrow> Action" where
  "get_action t state terminal =
     (case action_table t (state, terminal) of Some a \<Rightarrow> a | None \<Rightarrow> action1 ERROR)"

definition get_goto :: "ParseTable \<Rightarrow> int \<Rightarrow> Symbol \<Rightarrow> int" where
  "get_goto t state nonterminal =
     (case goto_table t (state, nonterminal) of Some s \<Rightarrow> s | None \<Rightarrow> -1)"

definition has_conflicts :: "ParseTable \<Rightarrow> bool" where
  "has_conflicts t = (conflicts t \<noteq> [])"

section \<open>LR items and the LR(0) automaton (lr\_items.h, lr\_items.cpp)\<close>

record LR0Item =
  production :: Production
  dot_position :: nat

definition is_complete :: "LR0Item \<Rightarrow> bool" where
  "is_complete item = (dot_position item \<ge> length (rhs (production item)))"

definition next_symbol :: "LR0Item \<Rightarrow> Symbol option" where
  "next_symbol item =
     (if is_complete item then None else Some (rhs (production item) ! dot_position item))"

definition advance :: "LR0Item \<Rightarrow> LR0Item" where
  "advance item = item\<lparr>dot_position := dot_position item + 1\<rparr>"

text \<open>
  \<open>LR0ItemSet = std::set<LR0Item>\<close> with \<open>LR0Item::operator<\<close>: the order of the
  production pointers, then of the dot positions.
\<close>

definition item_key :: "LR0Item \<Rightarrow> nat \<times> nat" where
  "item_key item = (prod_addr (production item), dot_position item)"

definition item_insert :: "LR0Item \<Rightarrow> LR0Item list \<Rightarrow> LR0Item list" where
  "item_insert x xs = (if x \<in> set xs then xs else insort_key item_key x xs)"

record LR1Item =
  lr1_production :: Production
  lr1_dot_position :: nat
  lookahead :: Symbol

definition mk_LR1Item :: "LR0Item \<Rightarrow> Symbol \<Rightarrow> LR1Item" where
  "mk_LR1Item lr0_item la =
     \<lparr>lr1_production = production lr0_item, lr1_dot_position = dot_position lr0_item, lookahead = la\<rparr>"

definition lr1_is_complete :: "LR1Item \<Rightarrow> bool" where
  "lr1_is_complete item = (lr1_dot_position item \<ge> length (rhs (lr1_production item)))"

definition lr1_next_symbol :: "LR1Item \<Rightarrow> Symbol option" where
  "lr1_next_symbol item =
     (if lr1_is_complete item then None else Some (rhs (lr1_production item) ! lr1_dot_position item))"

definition lr1_key :: "LR1Item \<Rightarrow> nat \<times> nat \<times> nat" where
  "lr1_key item = (prod_addr (lr1_production item), lr1_dot_position item, sym_addr (lookahead item))"

definition lr1_insert :: "LR1Item \<Rightarrow> LR1Item list \<Rightarrow> LR1Item list" where
  "lr1_insert x xs = (if x \<in> set xs then xs else insort_key lr1_key x xs)"

record LR0State =
  state_id :: int
  items :: "LR0Item list"

definition get_transition_symbols :: "LR0State \<Rightarrow> Symbol list" where
  "get_transition_symbols st =
     fold (\<lambda>item syms. case next_symbol item of Some next_sym \<Rightarrow> sym_insert next_sym syms | None \<Rightarrow> syms)
       (items st) []"

definition get_items_for_symbol :: "LR0State \<Rightarrow> Symbol \<Rightarrow> LR0Item list" where
  "get_items_for_symbol st symbol =
     fold (\<lambda>item result. if next_symbol item = Some symbol then item_insert item result else result)
       (items st) []"

subsection \<open>Closure\<close>

definition closure_add :: "LR0Item list \<Rightarrow> Production \<Rightarrow> LR0Item list \<times> bool \<Rightarrow> LR0Item list \<times> bool" where
  "closure_add result pr nc =
     (let new_item = \<lparr>production = pr, dot_position = 0\<rparr>
      in if new_item \<notin> set result \<and> new_item \<notin> set (fst nc)
         then (item_insert new_item (fst nc), True) else nc)"

definition closure_item ::
  "Grammar \<Rightarrow> LR0Item list \<Rightarrow> LR0Item \<Rightarrow> LR0Item list \<times> bool \<Rightarrow> LR0Item list \<times> bool" where
  "closure_item g result item nc =
     (case next_symbol item of
        None \<Rightarrow> nc
      | Some next_sym \<Rightarrow>
          if is_nonterminal next_sym
          then fold (closure_add result) (productions_for g next_sym) nc
          else nc)"

definition closure_pass :: "Grammar \<Rightarrow> LR0Item list \<Rightarrow> LR0Item list \<times> bool" where
  "closure_pass g result = fold (closure_item g result) result ([], False)"

definition closure_measure :: "Grammar \<Rightarrow> LR0Item list \<Rightarrow> nat" where
  "closure_measure g result =
     length (filter (\<lambda>p. \<lparr>production = p, dot_position = 0\<rparr> \<notin> set result) (productions g))"

definition closure_inv :: "Grammar \<Rightarrow> LR0Item list \<Rightarrow> LR0Item list \<times> bool \<Rightarrow> bool" where
  "closure_inv g result nc =
     ((snd nc \<longrightarrow> fst nc \<noteq> [])
      \<and> (\<forall>x \<in> set (fst nc). x \<notin> set result \<and> dot_position x = 0 \<and> production x \<in> set (productions g)))"

lemma set_item_insert [simp]: "set (item_insert x xs) = insert x (set xs)"
  by (auto simp: item_insert_def set_insort_key)

lemma set_fold_item_insert [simp]: "set (fold item_insert ys xs) = set ys \<union> set xs"
  by (induction ys arbitrary: xs) auto

lemma item_insert_not_Nil [simp]: "item_insert x xs \<noteq> []"
  using set_item_insert[of x xs] by (metis empty_iff insertI1 list.set(1))

lemma closure_add_inv:
  "closure_inv g result nc \<Longrightarrow> pr \<in> set (productions g) \<Longrightarrow> closure_inv g result (closure_add result pr nc)"
  by (auto simp: closure_inv_def closure_add_def Let_def)

lemma closure_add_fold_inv:
  "closure_inv g result nc \<Longrightarrow> set ps \<subseteq> set (productions g)
     \<Longrightarrow> closure_inv g result (fold (closure_add result) ps nc)"
  by (induction ps arbitrary: nc) (simp_all add: closure_add_inv)

lemma closure_item_inv:
  "closure_inv g result nc \<Longrightarrow> closure_inv g result (closure_item g result item nc)"
  by (auto simp: closure_item_def productions_for_def intro!: closure_add_fold_inv split: option.splits)

lemma closure_item_fold_inv:
  "closure_inv g result nc \<Longrightarrow> closure_inv g result (fold (closure_item g result) xs nc)"
  by (induction xs arbitrary: nc) (simp_all add: closure_item_inv)

lemma closure_pass_inv: "closure_inv g result (closure_pass g result)"
  unfolding closure_pass_def by (rule closure_item_fold_inv) (simp add: closure_inv_def)

lemma closure_pass_decreases:
  assumes "closure_pass g result = (new_items, True)"
  shows "closure_measure g (fold item_insert new_items result) < closure_measure g result"
proof -
  have inv: "closure_inv g result (new_items, True)"
    using closure_pass_inv[of g result] assms by simp
  then obtain x where x: "x \<in> set new_items" "x \<notin> set result" "dot_position x = 0"
    "production x \<in> set (productions g)"
    by (cases new_items) (auto simp: closure_inv_def)
  have xe: "x = \<lparr>production = production x, dot_position = 0\<rparr>"
    using x(3) by (cases x) simp
  show ?thesis unfolding closure_measure_def
  proof (rule length_filter_less_witness[where x = "production x"])
    show "production x \<in> set (productions g)" by (rule x(4))
    show "\<lparr>production = production x, dot_position = 0\<rparr> \<notin> set result"
      using x(2) xe by simp
    show "\<not> \<lparr>production = production x, dot_position = 0\<rparr> \<notin> set (fold item_insert new_items result)"
      using x(1) xe by simp
  qed auto
qed

function closure_loop :: "Grammar \<Rightarrow> LR0Item list \<Rightarrow> LR0Item list" where
  "closure_loop g result =
     (let (new_items, changed) = closure_pass g result;
          result' = fold item_insert new_items result
      in if changed then closure_loop g result' else result')"
  by pat_completeness auto
termination
  by (relation "measure (\<lambda>(g, result). closure_measure g result)") (auto simp: closure_pass_decreases)

definition closure :: "LR0Item list \<Rightarrow> Grammar \<Rightarrow> LR0Item list" where
  "closure its g = closure_loop g its"

definition goto_set :: "LR0Item list \<Rightarrow> Symbol \<Rightarrow> Grammar \<Rightarrow> LR0Item list" where
  "goto_set its symbol g =
     closure (fold (\<lambda>item result. if next_symbol item = Some symbol then item_insert (advance item) result
                                  else result) its []) g"

subsection \<open>The canonical collection\<close>

record LR0Automaton =
  lr0_states :: "LR0State list"
  lr0_transitions :: "int \<times> Symbol \<rightharpoonup> int"

text \<open>
  One round of the inner \<open>for\<close> loop of the constructor: the state reached from
  \<open>current\<close> on \<open>symbol\<close> is looked up among the states by its item set, or created
  with the next id and pushed on the work list.
\<close>

definition lr0_visit ::
  "Grammar \<Rightarrow> LR0State \<Rightarrow> Symbol
    \<Rightarrow> LR0State list \<times> (int \<times> Symbol \<rightharpoonup> int) \<times> LR0State list
    \<Rightarrow> LR0State list \<times> (int \<times> Symbol \<rightharpoonup> int) \<times> LR0State list" where
  "lr0_visit g current_state symbol w =
     (let (states, transitions, work_queue) = w;
          items_for_symbol = get_items_for_symbol current_state symbol;
          goto_items = closure (fold (\<lambda>item s. item_insert (advance item) s) items_for_symbol []) g
      in case find (\<lambda>existing_state. items existing_state = goto_items) states of
           Some target_state \<Rightarrow>
             (states, transitions((state_id current_state, symbol) \<mapsto> state_id target_state), work_queue)
         | None \<Rightarrow>
             (let target_state = \<lparr>state_id = int (length states), items = goto_items\<rparr>
              in (states @ [target_state],
                  transitions((state_id current_state, symbol) \<mapsto> state_id target_state),
                  work_queue @ [target_state])))"

text \<open>
  The \<open>while\<close> loop: the work list is a vector used as a stack (\<open>back\<close>,
  \<open>pop_back\<close>, \<open>push_back\<close>). The loop may in principle not return; then the
  result is \<open>None\<close>.
\<close>

partial_function (option) lr0_loop ::
  "Grammar \<Rightarrow> LR0State list \<times> (int \<times> Symbol \<rightharpoonup> int) \<times> LR0State list
     \<Rightarrow> (LR0State list \<times> (int \<times> Symbol \<rightharpoonup> int)) option" where
  "lr0_loop g w =
     (case w of (states, transitions, work_queue) \<Rightarrow>
        if work_queue = [] then Some (states, transitions)
        else
          (let current_state = last work_queue
           in lr0_loop g (fold (lr0_visit g current_state) (get_transition_symbols current_state)
                            (states, transitions, butlast work_queue))))"

declare lr0_loop.simps [code]

text \<open>Undefined behaviour of the C++ source that the model makes a value.\<close>

datatype Fault = IndexOutOfRange

text \<open>
  \<open>LR0Automaton::LR0Automaton\<close>. \<open>grammar.productions()[0]\<close> on a grammar without
  productions reads past the end of the vector.
\<close>

definition new_LR0Automaton :: "Grammar \<Rightarrow> (Fault + LR0Automaton) option" where
  "new_LR0Automaton g =
     (case productions g of
        [] \<Rightarrow> Some (Inl IndexOutOfRange)
      | start_production # _ \<Rightarrow>
          (let initial_set = closure [\<lparr>production = start_production, dot_position = 0\<rparr>] g;
               initial_state = \<lparr>state_id = 0, items = initial_set\<rparr>
           in map_option (\<lambda>r. Inr \<lparr>lr0_states = fst r, lr0_transitions = snd r\<rparr>)
                (lr0_loop g ([initial_state], Map.empty, [initial_state]))))"

definition get_transition :: "LR0Automaton \<Rightarrow> int \<Rightarrow> Symbol \<Rightarrow> int" where
  "get_transition aut from_state symbol =
     (case lr0_transitions aut (from_state, symbol) of Some t \<Rightarrow> t | None \<Rightarrow> -1)"


section \<open>LALR(1) states and the table generator (lr\_items.cpp, parse\_table.cpp)\<close>

record LALRState =
  lalr_id :: int
  core :: "LR0Item list"
  lalr_items :: "LR1Item list"
  lookaheads :: "(LR0Item \<times> Symbol list) list"

definition new_LALRState :: "int \<Rightarrow> LR0Item list \<Rightarrow> LALRState" where
  "new_LALRState i c = \<lparr>lalr_id = i, core = c, lalr_items = [], lookaheads = []\<rparr>"

text \<open>
  \<open>LALRState::add_lookahead\<close>: the lookahead joins the set of the item, and the set of
  LR(1) items is rebuilt from the core and the lookahead map.
\<close>

definition add_lookahead :: "LALRState \<Rightarrow> LR0Item \<Rightarrow> Symbol \<Rightarrow> LALRState" where
  "add_lookahead st item la =
     (let lk1 = um_touch (lookaheads st) item [];
          lk2 = um_set lk1 item (sym_insert la (um_get lk1 item []));
          lk3 = fold (\<lambda>core_item m. um_touch m core_item []) (core st) lk2;
          its = fold (\<lambda>core_item acc.
                        fold (\<lambda>la acc. lr1_insert (mk_LR1Item core_item la) acc) (um_get lk3 core_item []) acc)
                  (core st) []
      in st\<lparr>lookaheads := lk3, lalr_items := its\<rparr>)"

definition lalr_get_transition_symbols :: "LALRState \<Rightarrow> Symbol list" where
  "lalr_get_transition_symbols st =
     fold (\<lambda>item syms. case lr1_next_symbol item of Some next_sym \<Rightarrow> sym_insert next_sym syms | None \<Rightarrow> syms)
       (lalr_items st) []"

text \<open>
  Modelled from the spec: the \<open>const\<close> overloads \<open>Grammar::first_set(SymbolPtr) const\<close>
  and \<open>Grammar::follow_set(SymbolPtr) const\<close>, which grammar.h declares and
  \<open>LALR1Generator\<close> calls on its \<open>const Grammar&\<close>, are defined nowhere in the
  sources. The spec has one FIRST and one FOLLOW per grammar, computed on first read, so
  they return what the overloads of grammar.cpp return.
\<close>

definition first_set_const :: "Grammar \<Rightarrow> Symbol \<Rightarrow> Symbol list" where
  "first_set_const g symbol = fst (first_set g symbol)"

definition follow_set_const :: "Grammar \<Rightarrow> Symbol \<Rightarrow> Symbol list" where
  "follow_set_const g symbol = fst (follow_set g symbol)"

text \<open>
  The test \<open>lhs()->name().back() == '\''\<close> \<open>&& rhs().size() == 1\<close> by which the generator
  recognises the production \<open>S' -> S\<close>. \<open>back()\<close> of an empty name is undefined in C++;
  the model lets the test fail there.
\<close>

definition is_accept_production :: "Production \<Rightarrow> bool" where
  "is_accept_production p =
     (sym_name (lhs p) \<noteq> [] \<and> last (sym_name (lhs p)) = CHR 0x27 \<and> length (rhs p) = 1)"

record LALR1Generator =
  grammar :: Grammar
  lr0_automaton :: LR0Automaton
  lalr_states :: "LALRState list"

text \<open>
  \<open>LALR1Generator::LALR1Generator\<close> builds the LR(0) automaton in its initialiser list.
\<close>

definition new_LALR1Generator :: "Grammar \<Rightarrow> (Fault + LALR1Generator) option" where
  "new_LALR1Generator g =
     map_option (map_sum id (\<lambda>aut. \<lparr>grammar = g, lr0_automaton = aut, lalr_states = []\<rparr>))
       (new_LR0Automaton g)"

definition item_lookaheads :: "Grammar \<Rightarrow> LR0Item \<Rightarrow> Symbol list" where
  "item_lookaheads g lr0_item =
     (if is_complete lr0_item then
        (if is_accept_production (production lr0_item)
         then sym_insert (get_end_of_input (symbol_table g)) []
         else fold sym_insert (follow_set_const g (lhs (production lr0_item))) [])
      else
        (case next_symbol lr0_item of
           None \<Rightarrow> []
         | Some next_sym \<Rightarrow>
             if is_terminal next_sym then sym_insert next_sym []
             else if is_nonterminal next_sym then fold sym_insert (first_set_const g next_sym) []
             else []))"

definition build_lalr_state :: "Grammar \<Rightarrow> LR0State \<Rightarrow> LALRState" where
  "build_lalr_state g lr0_state =
     fold (\<lambda>lr0_item lalr_state.
             fold (\<lambda>la st. add_lookahead st lr0_item la) (item_lookaheads g lr0_item) lalr_state)
       (items lr0_state) (new_LALRState (state_id lr0_state) (items lr0_state))"

definition build_lalr_states :: "LALR1Generator \<Rightarrow> LALR1Generator" where
  "build_lalr_states gen =
     gen\<lparr>lalr_states := lalr_states gen
            @ map (build_lalr_state (grammar gen)) (lr0_states (lr0_automaton gen))\<rparr>"

text \<open>The search for the number of a production: the first index with the same pointer.\<close>

fun production_index :: "Production list \<Rightarrow> Production \<Rightarrow> nat \<Rightarrow> nat option" where
  "production_index [] p i = None"
| "production_index (q # qs) p i = (if q = p then Some i else production_index qs p (Suc i))"

definition fill_item :: "LALR1Generator \<Rightarrow> LALRState \<Rightarrow> LR1Item \<Rightarrow> ParseTable \<Rightarrow> ParseTable" where
  "fill_item gen state item table =
     (if lr1_is_complete item then
        (if is_accept_production (lr1_production item)
         then set_action table (lalr_id state) (lookahead item) (action1 ACCEPT)
         else (case production_index (productions (grammar gen)) (lr1_production item) 0 of
                 Some i \<Rightarrow> set_action table (lalr_id state) (lookahead item) (mk_action REDUCE (int i))
               | None \<Rightarrow> table))
      else
        (case lr1_next_symbol item of
           None \<Rightarrow> table
         | Some next_sym \<Rightarrow>
             if is_terminal next_sym then
               (let target_state = get_transition (lr0_automaton gen) (lalr_id state) next_sym
                in if target_state \<ge> 0
                   then set_action table (lalr_id state) next_sym (mk_action SHIFT target_state)
                   else table)
             else table))"

definition fill_goto :: "LALR1Generator \<Rightarrow> LALRState \<Rightarrow> Symbol \<Rightarrow> ParseTable \<Rightarrow> ParseTable" where
  "fill_goto gen state symbol table =
     (if is_nonterminal symbol then
        (let target_state = get_transition (lr0_automaton gen) (lalr_id state) symbol
         in if target_state \<ge> 0 then set_goto table (lalr_id state) symbol target_state else table)
      else table)"

definition fill_state :: "LALR1Generator \<Rightarrow> LALRState \<Rightarrow> ParseTable \<Rightarrow> ParseTable" where
  "fill_state gen state table =
     fold (fill_goto gen state) (lalr_get_transition_symbols state)
       (fold (fill_item gen state) (lalr_items state) table)"

text \<open>
  \<open>LALR1Generator::generate_table\<close>. The exception thrown for a grammar that is not
  augmented is the error value; the second component of the result is the generator with
  its LALR states.
\<close>

datatype TableError = NotAugmented

definition generate_table :: "LALR1Generator \<Rightarrow> TableError + (ParseTable \<times> LALR1Generator)" where
  "generate_table gen =
     (if \<not> is_augmented (grammar gen) then Inl NotAugmented
      else
        (let gen1 = build_lalr_states gen;
             st = symbol_table (grammar gen1);
             terms = sym_insert (get_end_of_input st) (get_terminals st);
             nonterms = get_nonterminals st;
             table = new_ParseTable (int (length (lalr_states gen1))) terms nonterms
         in Inr (fold (fill_state gen1) (lalr_states gen1) table, gen1)))"

section \<open>The parser driver (parser.h, parser.cpp)\<close>

record Token =
  tok_type :: TokenType
  tok_value :: string
  tok_line :: nat
  tok_column :: nat

definition is_eof :: "Token \<Rightarrow> bool" where
  "is_eof t = (tok_type t = EOF_TOKEN)"

text \<open>
  The lexer is outside the core. Its interface is \<open>next_token\<close>: the tokens of the
  input one after the other, and the end-of-file token from then on.
\<close>

record Lexer =
  lx_tokens :: "Token list"
  lx_eof :: Token

definition next_token :: "Lexer \<Rightarrow> Token \<times> Lexer" where
  "next_token lx =
     (case lx_tokens lx of
        [] \<Rightarrow> (lx_eof lx, lx)
      | t # ts \<Rightarrow> (t, lx\<lparr>lx_tokens := ts\<rparr>))"

datatype ParseNode = ParseNode Symbol string "ParseNode list"

fun node_symbol :: "ParseNode \<Rightarrow> Symbol" where
  "node_symbol (ParseNode s v cs) = s"

fun node_children :: "ParseNode \<Rightarrow> ParseNode list" where
  "node_children (ParseNode s v cs) = cs"

record StackElement =
  se_state :: int
  se_symbol :: "Symbol option"
  se_node :: "ParseNode option"

definition mk_StackElement :: "int \<Rightarrow> Symbol option \<Rightarrow> ParseNode option \<Rightarrow> StackElement" where
  "mk_StackElement s sy n = \<lparr>se_state = s, se_symbol = sy, se_node = n\<rparr>"

text \<open>
  \<open>ParseResult\<close>: the constructor from a tree sets \<open>success\<close>, the one from a message,
  a line and a column clears it.
\<close>

datatype ParseResult = ParseSuccess "ParseNode option" | ParseFailure string nat nat

text \<open>The state of \<open>parse_internal\<close>: the stack (top_el first), the current token, the lexer.\<close>

record ParserState =
  stack :: "StackElement list"
  current_token :: Token
  lexer :: Lexer

datatype Step = Next ParserState | Done ParseResult | Undefined Fault

definition find_terminal :: "Grammar \<Rightarrow> Token \<Rightarrow> Symbol option" where
  "find_terminal g tok =
     (if is_eof tok then Some (get_end_of_input (symbol_table g))
      else find (\<lambda>sym. is_terminal sym \<and> token_type sym = tok_type tok)
             (get_terminals (symbol_table g)))"

text \<open>
  The loop that pops the right-hand side: one frame for each of the \<open>n\<close> symbols of
  \<open>production->rhs()\<close>, \<open>None\<close> when the stack runs empty.
\<close>

fun pop_rhs :: "nat \<Rightarrow> StackElement list \<Rightarrow> ParseNode option list
    \<Rightarrow> (ParseNode option list \<times> StackElement list) option" where
  "pop_rhs 0 stk rhs_nodes = Some (rhs_nodes, stk)"
| "pop_rhs (Suc n) [] rhs_nodes = None"
| "pop_rhs (Suc n) (top_el # stk) rhs_nodes = pop_rhs n stk (rhs_nodes @ [se_node top_el])"

definition get_expected_symbols :: "Grammar \<Rightarrow> ParseTable \<Rightarrow> int \<Rightarrow> Symbol list" where
  "get_expected_symbols g table state =
     (let expected = fold (\<lambda>terminal e. if \<not> is_error (get_action table state terminal)
                                          then sym_insert terminal e else e)
                       (get_terminals (symbol_table g)) []
      in if \<not> is_error (get_action table state (get_end_of_input (symbol_table g)))
         then sym_insert (get_end_of_input (symbol_table g)) expected else expected)"

fun join_names :: "Symbol list \<Rightarrow> string" where
  "join_names [] = []"
| "join_names [s] = sym_name s"
| "join_names (s # ss) = sym_name s @ '', '' @ join_names ss"

definition reduce_step :: "Grammar \<Rightarrow> ParseTable \<Rightarrow> ParserState \<Rightarrow> Action \<Rightarrow> Step" where
  "reduce_step g table ps action =
     (if act_value action < 0 \<or> nat (act_value action) \<ge> length (productions g)
      then Undefined IndexOutOfRange
      else
        (let pr = productions g ! nat (act_value action)
         in case pop_rhs (length (rhs pr)) (stack ps) [] of
              None \<Rightarrow> Done (ParseFailure ''Stack underflow during reduction''
                               (tok_line (current_token ps)) (tok_column (current_token ps)))
            | Some (rhs_nodes, stk) \<Rightarrow>
                (let lhs_node = ParseNode (lhs pr) [] (List.map_filter id (rev rhs_nodes));
                     state_after_pop = (case stk of [] \<Rightarrow> 0 | top_el # _ \<Rightarrow> se_state top_el);
                     goto_state = get_goto table state_after_pop (lhs pr)
                 in if goto_state < 0
                    then Done (ParseFailure (''No goto entry for state '' @ to_string state_after_pop
                                   @ '' and symbol '' @ sym_name (lhs pr))
                                 (tok_line (current_token ps)) (tok_column (current_token ps)))
                    else Next (ps\<lparr>stack := mk_StackElement goto_state (Some (lhs pr)) (Some lhs_node) # stk\<rparr>))))"

text \<open>
  One round of the \<open>while (true)\<close> loop. \<open>stack.top()\<close> of an empty stack is
  undefined; the loop itself never empties the stack.
\<close>

definition parse_step :: "Grammar \<Rightarrow> ParseTable \<Rightarrow> ParserState \<Rightarrow> Step" where
  "parse_step g table ps =
     (case stack ps of
        [] \<Rightarrow> Undefined IndexOutOfRange
      | top_el # _ \<Rightarrow>
          (let current_state = se_state top_el;
               tok = current_token ps
           in case find_terminal g tok of
                None \<Rightarrow> Done (ParseFailure (''Unknown token: '' @ tok_value tok) (tok_line tok) (tok_column tok))
              | Some terminal \<Rightarrow>
                  (let action = get_action table current_state terminal
                   in if is_shift action then
                        (let node = ParseNode terminal (tok_value tok) [];
                             (tok', lx') = next_token (lexer ps)
                         in Next (ps\<lparr>stack := mk_StackElement (act_value action) (Some terminal) (Some node) # stack ps,
                                      current_token := tok', lexer := lx'\<rparr>))
                      else if is_reduce action then reduce_step g table ps action
                      else if is_accept action then
                        (if length (stack ps) \<ge> 2
                         then Done (ParseSuccess (se_node top_el))
                         else Done (ParseFailure ''Invalid stack state at accept'' (tok_line tok) (tok_column tok)))
                      else
                        (let expected_symbols = join_names (get_expected_symbols g table current_state);
                             error = ''Unexpected token '' @ [CHR 0x27] @ tok_value tok @ [CHR 0x27]
                         in Done (ParseFailure
                                    (if expected_symbols \<noteq> [] then error @ ''. Expected: '' @ expected_symbols
                                     else error)
                                    (tok_line tok) (tok_column tok))))))"

partial_function (option) parse_loop :: "Grammar \<Rightarrow> ParseTable \<Rightarrow> ParserState \<Rightarrow> (Fault + ParseResult) option" where
  "parse_loop g table ps =
     (case parse_step g table ps of
        Next ps' \<Rightarrow> parse_loop g table ps'
      | Done r \<Rightarrow> Some (Inr r)
      | Undefined f \<Rightarrow> Some (Inl f))"

declare parse_loop.simps [code]

definition parse_internal :: "Grammar \<Rightarrow> ParseTable \<Rightarrow> Lexer \<Rightarrow> (Fault + ParseResult) option" where
  "parse_internal g table lx =
     (let (tok, lx') = next_token lx
      in parse_loop g table \<lparr>stack = [mk_StackElement 0 None None], current_token = tok, lexer = lx'\<rparr>)"

section \<open>Table construction as the callers perform it, and further grammars\<close>

text \<open>
  The two steps by which every caller in the sources obtains a table:
  \<open>LALR1Generator generator(grammar); generator.generate_table()\<close>.
\<close>

definition build_table :: "Grammar \<Rightarrow> (Fault + TableError + ParseTable) option" where
  "build_table g =
     map_option (\<lambda>r. case r of Inl f \<Rightarrow> Inl f
                       | Inr gen \<Rightarrow> Inr (map_sum id fst (generate_table gen)))
       (new_LALR1Generator g)"

definition demo_augmented :: Grammar where
  "demo_augmented = augment demo_grammar 9 10"

text \<open>
  A grammar with a nonterminal whose name ends in an apostrophe, as the helper
  nonterminals of hand-written grammars often do: \<open>E -> T' , T' -> num\<close>, augmented.
\<close>

definition quote_grammar :: Grammar where
  "quote_grammar =
     (let g = new_Grammar 0 1;
          (E, st1) = get_nonterminal (symbol_table g) ''E'' 2;
          (T1, st2) = get_nonterminal st1 [CHR ''T'', CHR 0x27] 3;
          (num, st3) = get_terminal st2 ''num'' NUMBER 4;
          g1 = g\<lparr>symbol_table := st3\<rparr>;
          g2 = snd (add_production g1 E [T1] 5);
          g3 = snd (add_production g2 T1 [num] 6)
      in augment (set_start_symbol g3 (Some E)) 7 8)"

text \<open>
  A grammar whose initial state has two successors that both have successors of their
  own: \<open>S -> a b | c d\<close>, augmented.
\<close>

definition MINUS :: TokenType where
  "MINUS = 6"

definition MULTIPLY :: TokenType where
  "MULTIPLY = 7"

definition DIVIDE :: TokenType where
  "DIVIDE = 8"

definition fork_grammar :: Grammar where
  "fork_grammar =
     (let g = new_Grammar 0 1;
          (S, st1) = get_nonterminal (symbol_table g) ''S'' 2;
          (a, st2) = get_terminal st1 ''a'' PLUS 3;
          (b, st3) = get_terminal st2 ''b'' MINUS 4;
          (c, st4) = get_terminal st3 ''c'' MULTIPLY 5;
          (d, st5) = get_terminal st4 ''d'' DIVIDE 6;
          g1 = g\<lparr>symbol_table := st5\<rparr>;
          g2 = snd (add_production g1 S [a, b] 7);
          g3 = snd (add_production g2 S [c, d] 8)
      in augment (set_start_symbol g3 (Some S)) 9 10)"

text \<open>
  A grammar with the production \<open>A -> \<epsilon>\<close> written with the epsilon symbol of the
  symbol table as the only symbol of the right-hand side: \<open>S -> A num , A -> \<epsilon>\<close>.
\<close>

definition epsilon_grammar :: Grammar where
  "epsilon_grammar =
     (let g = new_Grammar 0 1;
          (S, st1) = get_nonterminal (symbol_table g) ''S'' 2;
          (A, st2) = get_nonterminal st1 ''A'' 3;
          (num, st3) = get_terminal st2 ''num'' NUMBER 4;
          g1 = g\<lparr>symbol_table := st3\<rparr>;
          g2 = snd (add_production g1 S [A, num] 5);
          g3 = snd (add_production g2 A [get_epsilon (symbol_table g2)] 6)
      in augment (set_start_symbol g3 (Some S)) 7 8)"


text \<open>
  A grammar in which the state entered on \<open>num\<close> holds the complete items of \<open>T' -> num\<close>
  and of \<open>X -> num\<close>: \<open>E -> T' | X , T' -> num , X -> num\<close>, augmented.
\<close>

definition shared_num_grammar :: Grammar where
  "shared_num_grammar =
     (let g = new_Grammar 0 1;
          (E, st1) = get_nonterminal (symbol_table g) ''E'' 2;
          (T1, st2) = get_nonterminal st1 [CHR ''T'', CHR 0x27] 3;
          (X, st3) = get_nonterminal st2 ''X'' 4;
          (num, st4) = get_terminal st3 ''num'' NUMBER 5;
          g1 = g\<lparr>symbol_table := st4\<rparr>;
          g2 = snd (add_production g1 E [T1] 6);
          g3 = snd (add_production g2 E [X] 7);
          g4 = snd (add_production g3 T1 [num] 8);
          g5 = snd (add_production g4 X [num] 9)
      in augment (set_start_symbol g5 (Some E)) 10 11)"

text \<open>A lexer over the given tokens, all on line 1.\<close>

definition lexer_of :: "(TokenType \<times> string) list \<Rightarrow> Lexer" where
  "lexer_of ts =
     \<lparr>lx_tokens = map (\<lambda>tv. \<lparr>tok_type = fst tv, tok_value = snd tv, tok_line = 1, tok_column = 1\<rparr>) ts,
      lx_eof = \<lparr>tok_type = EOF_TOKEN, tok_value = [], tok_line = 1, tok_column = 1\<rparr>\<rparr>"

subsection \<open>The canonical collection in breadth-first order\<close>

text \<open>
  The construction as the specification words it: the states wait in a queue and the
  state discovered first is expanded first. It differs from \<open>lr0_loop\<close> in the end of
  the work list that is taken.
\<close>

partial_function (option) lr0_loop_bfs ::
  "Grammar \<Rightarrow> LR0State list \<times> (int \<times> Symbol \<rightharpoonup> int) \<times> LR0State list
     \<Rightarrow> (LR0State list \<times> (int \<times> Symbol \<rightharpoonup> int)) option" where
  "lr0_loop_bfs g w =
     (case w of (states, transitions, work_queue) \<Rightarrow>
        if work_queue = [] then Some (states, transitions)
        else
          (let current_state = hd work_queue
           in lr0_loop_bfs g (fold (lr0_visit g current_state) (get_transition_symbols current_state)
                                (states, transitions, tl work_queue))))"

declare lr0_loop_bfs.simps [code]

definition bfs_states :: "Grammar \<Rightarrow> LR0State list option" where
  "bfs_states g =
     (case productions g of
        [] \<Rightarrow> None
      | start_production # _ \<Rightarrow>
          (let initial_state = \<lparr>state_id = 0,
                  items = closure [\<lparr>production = start_production, dot_position = 0\<rparr>] g\<rparr>
           in map_option fst (lr0_loop_bfs g ([initial_state], Map.empty, [initial_state]))))"


section \<open>Invariants of the constructions\<close>



text \<open>
  An item of the grammar: a production of the grammar with the dot inside or at the end
  of its right-hand side.
\<close>

definition item_ok :: "Grammar \<Rightarrow> LR0Item \<Rightarrow> bool" where
  "item_ok g it =
     (production it \<in> set (productions g) \<and> dot_position it \<le> length (rhs (production it)))"

text \<open>An item set that is entered on \<open>X\<close>: every item with the dot moved has \<open>X\<close> before it.\<close>

definition entered_on :: "Symbol \<Rightarrow> LR0Item list \<Rightarrow> bool" where
  "entered_on X its =
     (\<forall>it \<in> set its. 0 < dot_position it \<longrightarrow> rhs (production it) ! (dot_position it - 1) = X)"

text \<open>
  What the loop of the constructor keeps: ids are positions, the item sets are pairwise
  different sets of items of the grammar, the work list holds states of the collection in
  the order of their ids, and every transition leads to a state entered on its symbol.
\<close>

definition lr0_inv ::
  "Grammar \<Rightarrow> LR0State list \<Rightarrow> (int \<times> Symbol \<rightharpoonup> int) \<Rightarrow> LR0State list \<Rightarrow> bool" where
  "lr0_inv g states transitions work_queue =
     ((\<forall>i < length states. state_id (states ! i) = int i)
      \<and> distinct (map items states)
      \<and> (\<forall>s \<in> set states. distinct (items s) \<and> (\<forall>it \<in> set (items s). item_ok g it))
      \<and> set work_queue \<subseteq> set states
      \<and> sorted_wrt (\<lambda>a b. state_id a < state_id b) work_queue
      \<and> (\<forall>i X j. transitions (i, X) = Some j \<longrightarrow>
            (\<exists>t \<in> set states. state_id t = j \<and> entered_on X (items t))))"

text \<open>
  The order of expansion of a stack, told without the work list: of the states that
  wait, the one created last (the one with the greatest id) is expanded next, until none
  waits. The relation is stated apart from \<open>lr0_loop\<close>, the loop of the source, and
  compared with it below.
\<close>

definition newest :: "LR0State list \<Rightarrow> LR0State" where
  "newest pending = fold (\<lambda>s b. if state_id b < state_id s then s else b) pending (hd pending)"

inductive depth_first ::
  "Grammar \<Rightarrow> LR0State list \<times> (int \<times> Symbol \<rightharpoonup> int) \<times> LR0State list
     \<Rightarrow> LR0State list \<times> (int \<times> Symbol \<rightharpoonup> int) \<Rightarrow> bool" for g :: Grammar where
  df_done: "depth_first g (states, transitions, []) (states, transitions)"
| df_expand:
    "pending \<noteq> [] \<Longrightarrow> current = newest pending
      \<Longrightarrow> depth_first g (fold (lr0_visit g current) (get_transition_symbols current)
                           (states, transitions, remove1 current pending)) y
      \<Longrightarrow> depth_first g (states, transitions, pending) y"

text \<open>The lists that can be item sets of the grammar; there are finitely many.\<close>

definition item_lists :: "Grammar \<Rightarrow> LR0Item list set" where
  "item_lists g = {xs. set xs \<subseteq> {it. item_ok g it} \<and> distinct xs}"

text \<open>The state with which the constructor starts.\<close>

definition initial_lr0_state :: "Grammar \<Rightarrow> LR0State" where
  "initial_lr0_state g =
     \<lparr>state_id = 0, items = closure [\<lparr>production = hd (productions g), dot_position = 0\<rparr>] g\<rparr>"



text \<open>The state in which \<open>parse_internal\<close> enters its loop, and the states the loop reaches.\<close>

definition initial_parser_state :: "Lexer \<Rightarrow> ParserState" where
  "initial_parser_state lx =
     (let (tok, lx') = next_token lx
      in \<lparr>stack = [mk_StackElement 0 None None], current_token = tok, lexer = lx'\<rparr>)"

inductive driver_reaches :: "Grammar \<Rightarrow> ParseTable \<Rightarrow> ParserState \<Rightarrow> ParserState \<Rightarrow> bool"
  for g :: Grammar and table :: ParseTable and ps0 :: ParserState where
  reaches_start: "driver_reaches g table ps0 ps0"
| reaches_step:
    "driver_reaches g table ps0 ps \<Longrightarrow> parse_step g table ps = Next ps'
      \<Longrightarrow> driver_reaches g table ps0 ps'"


section \<open>Derivations of the empty string\<close>

text \<open>
  One derivation step replaces a left-hand side by its right-hand side inside a sentential
  form. A symbol derives the empty string when some sentential form derived from it
  consists of epsilon symbols only.
\<close>

definition derives1 :: "Grammar \<Rightarrow> Symbol list \<Rightarrow> Symbol list \<Rightarrow> bool" where
  "derives1 g u v = (\<exists>p \<in> set (productions g). \<exists>l r. u = l @ [lhs p] @ r \<and> v = l @ rhs p @ r)"

definition derives_empty_string :: "Grammar \<Rightarrow> Symbol \<Rightarrow> bool" where
  "derives_empty_string g A = (\<exists>w. rtranclp (derives1 g) [A] w \<and> (\<forall>x \<in> set w. is_epsilon x))"

inductive nullable :: "Grammar \<Rightarrow> Symbol \<Rightarrow> bool" for g :: Grammar where
  nullable_epsilon: "is_epsilon x \<Longrightarrow> nullable g x"
| nullable_production:
    "p \<in> set (productions g) \<Longrightarrow> \<forall>x \<in> set (rhs p). nullable g x \<Longrightarrow> nullable g (lhs p)"

text \<open>
  The invariants of the data model that the grammar API keeps: the epsilon of the symbol
  table has the epsilon type, left-hand sides are nonterminals, and the only epsilon
  symbol in a right-hand side is the one of the symbol table.
\<close>

definition grammar_wf :: "Grammar \<Rightarrow> bool" where
  "grammar_wf g =
     (is_epsilon (epsilon (symbol_table g))
      \<and> (\<forall>p \<in> set (productions g).
            is_nonterminal (lhs p)
            \<and> (\<forall>x \<in> set (rhs p). is_epsilon x \<longrightarrow> x = epsilon (symbol_table g))))"

lemma derives1_context: "derives1 g u v \<Longrightarrow> derives1 g (l @ u @ r) (l @ v @ r)"
proof -
  assume "derives1 g u v"
  then obtain p l' r' where p: "p \<in> set (productions g)" "u = l' @ [lhs p] @ r'" "v = l' @ rhs p @ r'"
    by (auto simp: derives1_def)
  have "l @ u @ r = (l @ l') @ [lhs p] @ (r' @ r)" "l @ v @ r = (l @ l') @ rhs p @ (r' @ r)"
    using p by simp_all
  then show ?thesis using p(1) unfolding derives1_def by blast
qed

lemma derives_context:
  "rtranclp (derives1 g) u v \<Longrightarrow> rtranclp (derives1 g) (l @ u @ r) (l @ v @ r)"
proof (induction rule: rtranclp_induct)
  case base
  then show ?case by simp
next
  case (step y z)
  then show ?case using derives1_context[of g y z l r] by (meson rtranclp.rtrancl_into_rtrancl)
qed

lemma derives_all_epsilon_list:
  assumes "\<forall>x \<in> set xs. \<exists>w. rtranclp (derives1 g) [x] w \<and> (\<forall>y \<in> set w. is_epsilon y)"
  shows "\<exists>w. rtranclp (derives1 g) xs w \<and> (\<forall>y \<in> set w. is_epsilon y)"
  using assms
proof (induction xs)
  case Nil
  then show ?case by auto
next
  case (Cons x xs)
  then obtain w1 where w1: "rtranclp (derives1 g) [x] w1" "\<forall>y \<in> set w1. is_epsilon y" by auto
  from Cons obtain w2 where w2: "rtranclp (derives1 g) xs w2" "\<forall>y \<in> set w2. is_epsilon y" by auto
  have "rtranclp (derives1 g) ([] @ [x] @ xs) ([] @ w1 @ xs)"
    using w1(1) by (rule derives_context)
  moreover have "rtranclp (derives1 g) (w1 @ xs @ []) (w1 @ w2 @ [])"
    using w2(1) by (rule derives_context)
  ultimately have "rtranclp (derives1 g) (x # xs) (w1 @ w2)" by simp
  then show ?case using w1(2) w2(2) by (intro exI[of _ "w1 @ w2"]) auto
qed

lemma nullable_derives:
  "nullable g x \<Longrightarrow> \<exists>w. rtranclp (derives1 g) [x] w \<and> (\<forall>y \<in> set w. is_epsilon y)"
proof (induction rule: nullable.induct)
  case (nullable_epsilon x)
  then show ?case by (intro exI[of _ "[x]"]) simp
next
  case (nullable_production p)
  then have "\<forall>x \<in> set (rhs p). \<exists>w. rtranclp (derives1 g) [x] w \<and> (\<forall>y \<in> set w. is_epsilon y)"
    by blast
  from derives_all_epsilon_list[OF this]
  obtain w where w: "rtranclp (derives1 g) (rhs p) w" "\<forall>y \<in> set w. is_epsilon y" by blast
  have "derives1 g ([] @ [lhs p] @ []) ([] @ rhs p @ [])"
    using nullable_production(1) unfolding derives1_def by blast
  then have "derives1 g [lhs p] (rhs p)" by simp
  then have "rtranclp (derives1 g) [lhs p] w" using w(1) by (rule converse_rtranclp_into_rtranclp)
  then show ?case using w(2) by blast
qed

lemma derives_nullable:
  "rtranclp (derives1 g) u w \<Longrightarrow> \<forall>y \<in> set w. is_epsilon y \<Longrightarrow> \<forall>x \<in> set u. nullable g x"
proof (induction rule: converse_rtranclp_induct)
  case base
  then show ?case by (auto intro: nullable_epsilon)
next
  case (step u v)
  then have v: "\<forall>x \<in> set v. nullable g x" by blast
  from step(1) obtain p l r where p: "p \<in> set (productions g)" "u = l @ [lhs p] @ r" "v = l @ rhs p @ r"
    by (auto simp: derives1_def)
  have "nullable g (lhs p)"
    using p(1) v p(3) by (intro nullable_production) auto
  then show ?case using v p by auto
qed

lemma derives_empty_string_nullable: "derives_empty_string g A \<longleftrightarrow> nullable g A"
  unfolding derives_empty_string_def
  using nullable_derives[of g A] derives_nullable[of g "[A]"] by auto


subsection \<open>The computed nullable set\<close>

definition eps_result :: "Grammar \<Rightarrow> bool umap" where
  "eps_result g = epsilon_loop (productions g) (epsilon_init (symbol_table g))"

definition eps_cond :: "bool umap \<Rightarrow> Production \<Rightarrow> bool" where
  "eps_cond m p =
     (\<forall>x \<in> set (rhs p). \<not> is_terminal x \<and> \<not> is_end_of_input x \<and> um_get m x False)"

definition eps_sound :: "Grammar \<Rightarrow> bool umap \<Rightarrow> bool" where
  "eps_sound g m =
     (\<forall>k. um_get m k False \<longrightarrow>
        nullable g k \<and> (k = epsilon (symbol_table g) \<or> k \<in> lhs ` set (productions g)))"

lemma all_derive_epsilon_fst:
  "fst (all_derive_epsilon m xs)
     \<longleftrightarrow> (\<forall>x \<in> set xs. \<not> is_terminal x \<and> \<not> is_end_of_input x \<and> um_get m x False)"
  by (induction xs arbitrary: m) (auto simp: Let_def)

lemma epsilon_step_cases:
  "um_get (fst (epsilon_step p mc)) k False
     \<longleftrightarrow> um_get (fst mc) k False
         \<or> (k = lhs p \<and> (rhs p = [] \<or> (length (rhs p) = 1 \<and> is_epsilon (rhs p ! 0)) \<or> eps_cond (fst mc) p))"
proof -
  let ?m1 = "um_touch (fst mc) (lhs p) False"
  obtain a m2 where ad: "all_derive_epsilon ?m1 (rhs p) = (a, m2)"
    by (cases "all_derive_epsilon ?m1 (rhs p)")
  have a: "a \<longleftrightarrow> eps_cond (fst mc) p"
    using all_derive_epsilon_fst[of ?m1 "rhs p"] ad by (simp add: eps_cond_def)
  have m2: "um_get m2 k' False = um_get (fst mc) k' False" for k'
    using all_derive_epsilon_get'[OF ad, of k'] by simp
  show ?thesis
    unfolding epsilon_step_def Let_def ad
    using a m2 by (auto split: if_splits)
qed

lemma epsilon_step_flag:
  "snd (epsilon_step p mc)
     \<longleftrightarrow> snd mc \<or> (\<not> um_get (fst mc) (lhs p) False
           \<and> (rhs p = [] \<or> (length (rhs p) = 1 \<and> is_epsilon (rhs p ! 0)) \<or> eps_cond (fst mc) p))"
proof -
  let ?m1 = "um_touch (fst mc) (lhs p) False"
  obtain a m2 where ad: "all_derive_epsilon ?m1 (rhs p) = (a, m2)"
    by (cases "all_derive_epsilon ?m1 (rhs p)")
  have a: "a \<longleftrightarrow> eps_cond (fst mc) p"
    using all_derive_epsilon_fst[of ?m1 "rhs p"] ad by (simp add: eps_cond_def)
  show ?thesis
    unfolding epsilon_step_def Let_def ad
    using a by (auto split: if_splits)
qed

lemma single_epsilon_cond:
  "length (rhs p) = 1 \<Longrightarrow> is_epsilon (rhs p ! 0) \<Longrightarrow> \<forall>x \<in> set (rhs p). is_epsilon x"
  by (cases "rhs p") auto

lemma epsilon_step_sound:
  assumes "eps_sound g (fst mc)" and "p \<in> set (productions g)"
  shows "eps_sound g (fst (epsilon_step p mc))"
proof -
  have "nullable g (lhs p)"
    if "rhs p = [] \<or> (length (rhs p) = 1 \<and> is_epsilon (rhs p ! 0)) \<or> eps_cond (fst mc) p"
  proof (rule nullable_production[OF assms(2)])
    show "\<forall>x \<in> set (rhs p). nullable g x"
      using that assms(1) single_epsilon_cond[of p]
      by (auto simp: eps_cond_def eps_sound_def intro: nullable_epsilon)
  qed
  then show ?thesis
    using assms unfolding eps_sound_def epsilon_step_cases by blast
qed

lemma epsilon_fold_sound:
  "eps_sound g (fst mc) \<Longrightarrow> set ps \<subseteq> set (productions g) \<Longrightarrow> eps_sound g (fst (fold epsilon_step ps mc))"
  by (induction ps arbitrary: mc) (simp_all add: epsilon_step_sound)

lemma epsilon_loop_sound:
  "eps_sound g m \<Longrightarrow> eps_sound g (epsilon_loop (productions g) m)"
proof (induction "productions g" m rule: epsilon_loop.induct)
  case (1 m)
  obtain m' changed where ep: "epsilon_pass (productions g) m = (m', changed)"
    by (cases "epsilon_pass (productions g) m")
  have s: "eps_sound g m'"
    using epsilon_fold_sound[of g "(m, False)" "productions g"] 1(2) ep by (simp add: epsilon_pass_def)
  show ?case
  proof (cases changed)
    case True
    then have "eps_sound g (epsilon_loop (productions g) m')" using 1(1) ep s by simp
    then show ?thesis using ep True by (subst epsilon_loop.simps) simp
  next
    case False
    then show ?thesis using ep s by (subst epsilon_loop.simps) simp
  qed
qed

lemma um_get_fold_false:
  "\<not> um_get m k False \<Longrightarrow> \<not> um_get (fold (\<lambda>k m. um_set m k False) ks m) k False"
  by (induction ks arbitrary: m) auto

lemma epsilon_init_get [simp]: "um_get (epsilon_init st) k False \<longleftrightarrow> k = get_epsilon st"
  using um_get_fold_false[of "[]" k "get_nonterminals st"]
  by (auto simp: epsilon_init_def) (simp add: um_get_def)

lemma eps_result_sound:
  assumes "grammar_wf g"
  shows "eps_sound g (eps_result g)"
  unfolding eps_result_def
proof (rule epsilon_loop_sound)
  show "eps_sound g (epsilon_init (symbol_table g))"
    using assms by (auto simp: eps_sound_def grammar_wf_def get_epsilon_def intro: nullable_epsilon)
qed

text \<open>The last round of the iteration changes nothing, so its result is closed.\<close>

lemma epsilon_fold_unchanged:
  "\<not> snd (fold epsilon_step ps mc) \<Longrightarrow>
     (\<forall>k. um_get (fst (fold epsilon_step ps mc)) k False = um_get (fst mc) k False)
     \<and> (\<forall>p \<in> set ps. rhs p = [] \<or> (length (rhs p) = 1 \<and> is_epsilon (rhs p ! 0)) \<or> eps_cond (fst mc) p
            \<longrightarrow> um_get (fst mc) (lhs p) False)"
proof (induction ps arbitrary: mc)
  case Nil
  then show ?case by simp
next
  case (Cons p ps)
  have flag_mono: "snd mc' \<Longrightarrow> snd (fold epsilon_step qs mc')" for qs mc'
    by (induction qs arbitrary: mc') (simp_all add: epsilon_step_flag)
  have n1: "\<not> snd (epsilon_step p mc)"
    using Cons.prems flag_mono[of "epsilon_step p mc" ps] by auto
  then have here: "rhs p = [] \<or> (length (rhs p) = 1 \<and> is_epsilon (rhs p ! 0)) \<or> eps_cond (fst mc) p
      \<longrightarrow> um_get (fst mc) (lhs p) False"
    unfolding epsilon_step_flag by blast
  then have same: "um_get (fst (epsilon_step p mc)) k False = um_get (fst mc) k False" for k
    unfolding epsilon_step_cases by blast
  then have cond: "eps_cond (fst (epsilon_step p mc)) q = eps_cond (fst mc) q" for q
    by (simp add: eps_cond_def)
  from Cons.IH[of "epsilon_step p mc"] Cons.prems
  have ih: "\<forall>k. um_get (fst (fold epsilon_step ps (epsilon_step p mc))) k False = um_get (fst (epsilon_step p mc)) k False"
    "\<forall>q \<in> set ps. rhs q = [] \<or> (length (rhs q) = 1 \<and> is_epsilon (rhs q ! 0)) \<or> eps_cond (fst (epsilon_step p mc)) q
            \<longrightarrow> um_get (fst (epsilon_step p mc)) (lhs q) False"
    by simp_all
  show ?case using ih here same cond by simp
qed

definition eps_closed :: "Production list \<Rightarrow> bool umap \<Rightarrow> bool" where
  "eps_closed ps m =
     (\<forall>p \<in> set ps. rhs p = [] \<or> (length (rhs p) = 1 \<and> is_epsilon (rhs p ! 0)) \<or> eps_cond m p
        \<longrightarrow> um_get m (lhs p) False)"

lemma epsilon_loop_closed:
  "eps_closed ps (epsilon_loop ps m) \<and> (\<forall>k. um_get m k False \<longrightarrow> um_get (epsilon_loop ps m) k False)"
proof (induction ps m rule: epsilon_loop.induct)
  case (1 ps m)
  obtain m' changed where ep: "epsilon_pass ps m = (m', changed)"
    by (cases "epsilon_pass ps m")
  have mono: "um_get m k False \<Longrightarrow> um_get m' k False" for k
    using epsilon_fold_mono[of "(m, False)" k ps] ep by (simp add: epsilon_pass_def)
  show ?case
  proof (cases changed)
    case True
    then have "eps_closed ps (epsilon_loop ps m') \<and> (\<forall>k. um_get m' k False \<longrightarrow> um_get (epsilon_loop ps m') k False)"
      using 1 ep by simp
    moreover have "epsilon_loop ps m = epsilon_loop ps m'"
      using ep True by (subst epsilon_loop.simps) simp
    ultimately show ?thesis using mono by auto
  next
    case False
    have res: "epsilon_loop ps m = m'"
      using ep False by (subst epsilon_loop.simps) simp
    from epsilon_fold_unchanged[of ps "(m, False)"] ep False
    have same: "\<forall>k. um_get m' k False = um_get m k False"
      and cl: "\<forall>p \<in> set ps. rhs p = [] \<or> (length (rhs p) = 1 \<and> is_epsilon (rhs p ! 0)) \<or> eps_cond m p
            \<longrightarrow> um_get m (lhs p) False"
      by (simp_all add: epsilon_pass_def)
    have "eps_cond m' q = eps_cond m q" for q using same by (simp add: eps_cond_def)
    then have "eps_closed ps m'" using cl same by (simp add: eps_closed_def)
    then show ?thesis using res mono by simp
  qed
qed

lemma nullable_type:
  assumes "grammar_wf g"
  shows "nullable g x \<Longrightarrow> is_epsilon x \<or> is_nonterminal x"
  by (induction rule: nullable.induct) (use assms in \<open>auto simp: grammar_wf_def\<close>)

lemma symbol_type_disjoint:
  "is_nonterminal x \<Longrightarrow> \<not> is_epsilon x \<and> \<not> is_terminal x \<and> \<not> is_end_of_input x"
  "is_epsilon x \<Longrightarrow> \<not> is_terminal x \<and> \<not> is_end_of_input x"
  by (auto simp: is_nonterminal_def is_epsilon_def is_terminal_def is_end_of_input_def)

lemma eps_result_complete:
  assumes wf: "grammar_wf g"
  shows "nullable g x \<Longrightarrow> (is_epsilon x \<longrightarrow> x = epsilon (symbol_table g)) \<longrightarrow> um_get (eps_result g) x False"
proof (induction rule: nullable.induct)
  case (nullable_epsilon x)
  have "um_get (eps_result g) (epsilon (symbol_table g)) False"
    using epsilon_loop_closed[of "productions g" "epsilon_init (symbol_table g)"]
    by (simp add: eps_result_def get_epsilon_def)
  then show ?case using nullable_epsilon by auto
next
  case (nullable_production p)
  have cl: "eps_closed (productions g) (eps_result g)"
    using epsilon_loop_closed[of "productions g" "epsilon_init (symbol_table g)"]
    by (simp add: eps_result_def)
  have "eps_cond (eps_result g) p"
    unfolding eps_cond_def
  proof
    fix x assume x: "x \<in> set (rhs p)"
    then have n: "nullable g x" and ih: "(is_epsilon x \<longrightarrow> x = epsilon (symbol_table g)) \<longrightarrow> um_get (eps_result g) x False"
      using nullable_production by auto
    have "is_epsilon x \<longrightarrow> x = epsilon (symbol_table g)"
      using wf nullable_production(1) x by (auto simp: grammar_wf_def)
    then have "um_get (eps_result g) x False" using ih by blast
    moreover have "\<not> is_terminal x \<and> \<not> is_end_of_input x"
      using nullable_type[OF wf n] symbol_type_disjoint by blast
    ultimately show "\<not> is_terminal x \<and> \<not> is_end_of_input x \<and> um_get (eps_result g) x False" by blast
  qed
  then have "um_get (eps_result g) (lhs p) False"
    using cl nullable_production(1) by (auto simp: eps_closed_def)
  then show ?case by blast
qed

lemma eps_result_iff:
  assumes "grammar_wf g"
  shows "um_get (eps_result g) k False
     \<longleftrightarrow> nullable g k \<and> (is_epsilon k \<longrightarrow> k = epsilon (symbol_table g))"
proof
  assume t: "um_get (eps_result g) k False"
  then have n: "nullable g k" and o: "k = epsilon (symbol_table g) \<or> k \<in> lhs ` set (productions g)"
    using eps_result_sound[OF assms] by (auto simp: eps_sound_def)
  have "is_epsilon k \<longrightarrow> k = epsilon (symbol_table g)"
    using o assms symbol_type_disjoint(1) by (auto simp: grammar_wf_def)
  then show "nullable g k \<and> (is_epsilon k \<longrightarrow> k = epsilon (symbol_table g))" using n by blast
next
  assume "nullable g k \<and> (is_epsilon k \<longrightarrow> k = epsilon (symbol_table g))"
  then show "um_get (eps_result g) k False" using eps_result_complete[OF assms] by blast
qed


subsection \<open>Epsilon in the computed FIRST sets\<close>

definition eps_ok :: "Grammar \<Rightarrow> Grammar \<Rightarrow> bool" where
  "eps_ok g0 g =
     (productions g = productions g0 \<and> symbol_table g = symbol_table g0
      \<and> (epsilon_computed g \<longrightarrow> (\<forall>k. um_get (epsilon_derivers g) k False = um_get (eps_result g0) k False)))"

definition first_sound :: "Grammar \<Rightarrow> Grammar \<Rightarrow> bool" where
  "first_sound g0 g =
     (\<forall>k. epsilon (symbol_table g0) \<in> set (um_get (first_sets g) k [])
        \<longrightarrow> k = epsilon (symbol_table g0) \<or> nullable g0 k)"

lemma derives_epsilon_ok:
  assumes "eps_ok g0 g"
  shows "fst (derives_epsilon g s) = um_get (eps_result g0) s False"
    and "eps_ok g0 (snd (derives_epsilon g s))"
proof -
  have c: "epsilon_derivers (compute_epsilon_derivers g) = eps_result g0"
    using assms by (simp add: compute_epsilon_derivers_def eps_result_def eps_ok_def)
  show "fst (derives_epsilon g s) = um_get (eps_result g0) s False"
    using assms c by (auto simp: derives_epsilon_def Let_def eps_ok_def um_get_def)
  show "eps_ok g0 (snd (derives_epsilon g s))"
    using assms c by (auto simp: derives_epsilon_def Let_def eps_ok_def compute_epsilon_derivers_def)
qed

lemma eps_ok_first_upd [simp]: "eps_ok g0 (g\<lparr>first_sets := m\<rparr>) = eps_ok g0 g"
  by (simp add: eps_ok_def)

lemma eps_ok_first_lhs_insert [simp]: "eps_ok g0 (first_lhs_insert g l xs) = eps_ok g0 g"
  by (simp add: first_lhs_insert_def)

lemma first_sound_touch [simp]:
  "first_sound g0 (g\<lparr>first_sets := um_touch (first_sets g) k []\<rparr>) = first_sound g0 g"
  by (simp add: first_sound_def)

lemma first_sound_insert:
  assumes "first_sound g0 g"
    and "epsilon (symbol_table g0) \<in> set xs \<longrightarrow> l = epsilon (symbol_table g0) \<or> nullable g0 l"
  shows "first_sound g0 (first_lhs_insert g l xs)"
  using assms by (auto simp: first_sound_def first_lhs_insert_def)

lemma first_rhs_eps_ok: "eps_ok g0 g \<Longrightarrow> eps_ok g0 (first_rhs l rest g)"
proof (induction rest arbitrary: g)
  case Nil
  then show ?case by simp
next
  case (Cons x rest)
  let ?g1 = "g\<lparr>first_sets := um_touch (first_sets g) x []\<rparr>"
  let ?g2 = "first_lhs_insert ?g1 l (filter (\<lambda>sym. \<not> is_epsilon sym) (um_get (first_sets ?g1) x []))"
  obtain d g3 where dg: "derives_epsilon ?g2 x = (d, g3)" by (cases "derives_epsilon ?g2 x")
  have "eps_ok g0 ?g2" using Cons.prems by simp
  then have 3: "eps_ok g0 g3" using derives_epsilon_ok(2)[of g0 ?g2 x] dg by simp
  have "first_rhs l (x # rest) g =
          (if \<not> d then g3
           else if rest = [] then first_lhs_insert g3 l [get_epsilon (symbol_table g3)]
           else first_rhs l rest g3)"
    using dg by (simp add: Let_def)
  then show ?case using 3 Cons.IH[OF 3] by simp
qed

lemma first_rhs_sound:
  assumes wf: "grammar_wf g0"
  shows "eps_ok g0 g \<Longrightarrow> first_sound g0 g
     \<Longrightarrow> (\<forall>x \<in> set rest. nullable g0 x) \<longrightarrow> nullable g0 l
     \<Longrightarrow> first_sound g0 (first_rhs l rest g)"
proof (induction rest arbitrary: g)
  case Nil
  then show ?case by simp
next
  case (Cons x rest)
  let ?e = "epsilon (symbol_table g0)"
  let ?g1 = "g\<lparr>first_sets := um_touch (first_sets g) x []\<rparr>"
  let ?g2 = "first_lhs_insert ?g1 l (filter (\<lambda>sym. \<not> is_epsilon sym) (um_get (first_sets ?g1) x []))"
  obtain d g3 where dg: "derives_epsilon ?g2 x = (d, g3)" by (cases "derives_epsilon ?g2 x")
  have e: "is_epsilon ?e" using wf by (simp add: grammar_wf_def)
  have ok2: "eps_ok g0 ?g2" using Cons.prems(1) by simp
  have s2: "first_sound g0 ?g2"
    by (rule first_sound_insert) (use Cons.prems(2) e in auto)
  have ok3: "eps_ok g0 g3" using derives_epsilon_ok(2)[OF ok2, of x] dg by simp
  have d: "d = um_get (eps_result g0) x False" using derives_epsilon_ok(1)[OF ok2, of x] dg by simp
  have g3: "g3 = snd (derives_epsilon ?g2 x)" using dg by simp
  have fs3: "first_sets g3 = first_sets ?g2" unfolding g3 by (rule derives_epsilon_first(1))
  have s3: "first_sound g0 g3" using s2 fs3 by (simp add: first_sound_def)
  have st3: "symbol_table g3 = symbol_table g0" using ok3 by (simp add: eps_ok_def)
  have nx: "d \<Longrightarrow> nullable g0 x" using d eps_result_iff[OF wf, of x] by simp
  have last: "first_sound g0 (first_lhs_insert g3 l [get_epsilon (symbol_table g3)])" if "d" "rest = []"
    by (rule first_sound_insert[OF s3]) (use that nx Cons.prems(3) in auto)
  have more: "first_sound g0 (first_rhs l rest g3)" if "d"
    by (rule Cons.IH[OF ok3 s3]) (use that nx Cons.prems(3) in auto)
  have "first_rhs l (x # rest) g =
          (if \<not> d then g3
           else if rest = [] then first_lhs_insert g3 l [get_epsilon (symbol_table g3)]
           else first_rhs l rest g3)"
    using dg by (simp add: Let_def)
  then show ?case using s3 last more by simp
qed

lemma first_rhs_complete:
  "eps_ok g0 g \<Longrightarrow> \<forall>x \<in> set rest. um_get (eps_result g0) x False \<Longrightarrow> rest \<noteq> []
     \<Longrightarrow> epsilon (symbol_table g0) \<in> set (um_get (first_sets (first_rhs l rest g)) l [])"
proof (induction rest arbitrary: g)
  case Nil
  then show ?case by simp
next
  case (Cons x rest)
  let ?g1 = "g\<lparr>first_sets := um_touch (first_sets g) x []\<rparr>"
  let ?g2 = "first_lhs_insert ?g1 l (filter (\<lambda>sym. \<not> is_epsilon sym) (um_get (first_sets ?g1) x []))"
  obtain d g3 where dg: "derives_epsilon ?g2 x = (d, g3)" by (cases "derives_epsilon ?g2 x")
  have ok2: "eps_ok g0 ?g2" using Cons.prems(1) by simp
  have ok3: "eps_ok g0 g3" using derives_epsilon_ok(2)[OF ok2, of x] dg by simp
  have d: "d" using derives_epsilon_ok(1)[OF ok2, of x] dg Cons.prems(2) by simp
  have st3: "symbol_table g3 = symbol_table g0" using ok3 by (simp add: eps_ok_def)
  have eq: "first_rhs l (x # rest) g =
          (if rest = [] then first_lhs_insert g3 l [get_epsilon (symbol_table g3)]
           else first_rhs l rest g3)"
    using dg d by (simp add: Let_def)
  show ?case
  proof (cases "rest = []")
    case True
    then show ?thesis unfolding eq by (simp add: first_lhs_insert_def st3 get_epsilon_def)
  next
    case False
    then show ?thesis unfolding eq using Cons.IH[OF ok3] Cons.prems(2) by simp
  qed
qed

lemma first_step_eps_ok: "eps_ok g0 (fst gc) \<Longrightarrow> eps_ok g0 (fst (first_step p gc))"
  by (simp add: first_step_def Let_def first_rhs_eps_ok)

lemma first_step_sound:
  assumes "grammar_wf g0" and "eps_ok g0 (fst gc)" and "first_sound g0 (fst gc)"
    and "p \<in> set (productions g0)"
  shows "first_sound g0 (fst (first_step p gc))"
proof -
  let ?g1 = "(fst gc)\<lparr>first_sets := um_touch (first_sets (fst gc)) (lhs p) []\<rparr>"
  have ok1: "eps_ok g0 ?g1" and s1: "first_sound g0 ?g1" using assms(2,3) by simp_all
  have n: "(\<forall>x \<in> set (rhs p). nullable g0 x) \<longrightarrow> nullable g0 (lhs p)"
    using assms(4) by (auto intro: nullable_production)
  have a: "first_sound g0 (first_lhs_insert ?g1 (lhs p) [get_epsilon (symbol_table ?g1)])" if "rhs p = []"
    by (rule first_sound_insert[OF s1]) (use n that in auto)
  have b: "first_sound g0 (first_rhs (lhs p) (rhs p) ?g1)"
    by (rule first_rhs_sound[OF assms(1) ok1 s1 n])
  show ?thesis using a b by (simp add: first_step_def Let_def)
qed

lemma first_step_complete:
  assumes "eps_ok g0 (fst gc)" and "\<forall>x \<in> set (rhs p). um_get (eps_result g0) x False"
  shows "epsilon (symbol_table g0) \<in> set (um_get (first_sets (fst (first_step p gc))) (lhs p) [])"
proof -
  let ?g1 = "(fst gc)\<lparr>first_sets := um_touch (first_sets (fst gc)) (lhs p) []\<rparr>"
  have ok1: "eps_ok g0 ?g1" using assms(1) by simp
  have st: "symbol_table (fst gc) = symbol_table g0" using assms(1) by (simp add: eps_ok_def)
  show ?thesis
  proof (cases "rhs p = []")
    case True
    then show ?thesis by (simp add: first_step_def Let_def first_lhs_insert_def st get_epsilon_def)
  next
    case False
    then show ?thesis using first_rhs_complete[OF ok1 assms(2) False, of "lhs p"]
      by (simp add: first_step_def Let_def)
  qed
qed

lemma first_fold_inv:
  assumes "grammar_wf g0"
  shows "eps_ok g0 (fst gc) \<Longrightarrow> first_sound g0 (fst gc) \<Longrightarrow> set ps \<subseteq> set (productions g0)
     \<Longrightarrow> eps_ok g0 (fst (fold first_step ps gc)) \<and> first_sound g0 (fst (fold first_step ps gc))"
proof (induction ps arbitrary: gc)
  case Nil
  then show ?case by simp
next
  case (Cons p ps)
  have "eps_ok g0 (fst (first_step p gc))" using Cons.prems(1) by (rule first_step_eps_ok)
  moreover have "first_sound g0 (fst (first_step p gc))"
    using Cons.prems by (intro first_step_sound[OF assms]) auto
  ultimately show ?case using Cons.IH[of "first_step p gc"] Cons.prems(3) by simp
qed

lemma first_le_member:
  "first_le g g' \<Longrightarrow> x \<in> set (um_get (first_sets g) k []) \<Longrightarrow> x \<in> set (um_get (first_sets g') k [])"
  by (auto simp: first_le_def grows_def)

lemma first_fold_complete:
  "eps_ok g0 (fst gc) \<Longrightarrow> p \<in> set ps \<Longrightarrow> \<forall>x \<in> set (rhs p). um_get (eps_result g0) x False
     \<Longrightarrow> epsilon (symbol_table g0) \<in> set (um_get (first_sets (fst (fold first_step ps gc))) (lhs p) [])"
proof (induction ps arbitrary: gc)
  case Nil
  then show ?case by simp
next
  case (Cons q ps)
  have ok: "eps_ok g0 (fst (first_step q gc))" using Cons.prems(1) by (rule first_step_eps_ok)
  show ?case
  proof (cases "p = q")
    case True
    have "epsilon (symbol_table g0) \<in> set (um_get (first_sets (fst (first_step q gc))) (lhs p) [])"
      using first_step_complete[OF Cons.prems(1), of p] Cons.prems(3) True by simp
    then show ?thesis
      using first_le_member[OF first_le_fold[of "first_step q gc" ps]] by simp
  next
    case False
    then show ?thesis using Cons.IH[OF ok] Cons.prems by simp
  qed
qed

lemma first_loop_inv:
  assumes wf: "grammar_wf g0"
  shows "eps_ok g0 g \<Longrightarrow> first_sound g0 g
     \<Longrightarrow> eps_ok g0 (first_loop g) \<and> first_sound g0 (first_loop g)
        \<and> (\<forall>p \<in> set (productions g0). (\<forall>x \<in> set (rhs p). um_get (eps_result g0) x False)
              \<longrightarrow> epsilon (symbol_table g0) \<in> set (um_get (first_sets (first_loop g)) (lhs p) []))"
proof (induction g rule: first_loop.induct)
  case (1 g)
  obtain g' changed where fp: "first_pass g = (g', changed)" by (cases "first_pass g")
  have pg: "productions g = productions g0" using 1(2) by (simp add: eps_ok_def)
  have inv: "eps_ok g0 g'" "first_sound g0 g'"
    using first_fold_inv[OF wf, of "(g, False)" "productions g"] 1(2,3) fp pg
    by (simp_all add: first_pass_def)
  have comp: "\<forall>p \<in> set (productions g0). (\<forall>x \<in> set (rhs p). um_get (eps_result g0) x False)
              \<longrightarrow> epsilon (symbol_table g0) \<in> set (um_get (first_sets g') (lhs p) [])"
    using first_fold_complete[of g0 "(g, False)" _ "productions g"] 1(2) fp pg
    by (auto simp: first_pass_def)
  show ?case
  proof (cases changed)
    case True
    have "first_loop g = first_loop g'" using fp True by (subst first_loop.simps) simp
    then show ?thesis using 1(1)[OF refl fp[symmetric] True inv] by simp
  next
    case False
    have "first_loop g = g'" using fp False by (subst first_loop.simps) simp
    then show ?thesis using inv comp by simp
  qed
qed

lemma first_sets_init_self: "set (um_get (first_sets_init st) k []) \<subseteq> {k}"
proof -
  have t: "(\<forall>j. set (um_get m j []) \<subseteq> {j}) \<Longrightarrow>
      \<forall>j. set (um_get (fold (\<lambda>terminal m. um_set m terminal (sym_insert terminal (um_get m terminal []))) ks m) j []) \<subseteq> {j}"
    for ks and m :: "Symbol list umap"
  proof (induction ks arbitrary: m)
    case Nil
    then show ?case by simp
  next
    case (Cons a ks)
    have "\<forall>j. set (um_get (um_set m a (sym_insert a (um_get m a []))) j []) \<subseteq> {j}"
      using Cons.prems by auto
    then show ?case using Cons.IH by simp
  qed
  have n: "(\<forall>j. set (um_get m j []) \<subseteq> {j}) \<Longrightarrow>
      \<forall>j. set (um_get (fold (\<lambda>nonterminal m. um_set m nonterminal []) ks m) j []) \<subseteq> {j}"
    for ks and m :: "Symbol list umap"
  proof (induction ks arbitrary: m)
    case Nil
    then show ?case by simp
  next
    case (Cons a ks)
    have "\<forall>j. set (um_get (um_set m a []) j []) \<subseteq> {j}"
      using Cons.prems by auto
    then show ?case using Cons.IH by simp
  qed
  define m0 where "m0 = fold (\<lambda>terminal m. um_set m terminal (sym_insert terminal (um_get m terminal [])))
                 (get_terminals st) []"
  define m1 where "m1 = um_set m0 (get_epsilon st) (sym_insert (get_epsilon st) (um_get m0 (get_epsilon st) []))"
  define m2 where "m2 = um_set m1 (get_end_of_input st)
                 (sym_insert (get_end_of_input st) (um_get m1 (get_end_of_input st) []))"
  have e: "\<forall>j. set (um_get ([]::Symbol list umap) j []) \<subseteq> {j}" by (simp add: um_get_def)
  have 0: "\<forall>j. set (um_get m0 j []) \<subseteq> {j}"
    unfolding m0_def by (rule t[OF e])
  have 1: "\<forall>j. set (um_get m1 j []) \<subseteq> {j}" unfolding m1_def using 0 by auto
  have 2: "\<forall>j. set (um_get m2 j []) \<subseteq> {j}" unfolding m2_def using 1 by auto
  have "first_sets_init st = fold (\<lambda>nonterminal m. um_set m nonterminal []) (get_nonterminals st) m2"
    by (simp add: first_sets_init_def Let_def m2_def m1_def m0_def)
  then show ?thesis using n[OF 2, of "get_nonterminals st"] by simp
qed


definition first_char :: "Grammar \<Rightarrow> Grammar \<Rightarrow> bool" where
  "first_char g0 g =
     (\<forall>A. is_nonterminal A \<longrightarrow>
        (epsilon (symbol_table g0) \<in> set (um_get (first_sets g) A []) \<longleftrightarrow> nullable g0 A))"

inductive after_queries :: "Grammar \<Rightarrow> Grammar \<Rightarrow> bool" for g :: Grammar where
  after_none: "\<not> epsilon_computed g \<Longrightarrow> \<not> first_sets_computed g \<Longrightarrow> after_queries g g"
| after_first_set: "after_queries g g1 \<Longrightarrow> after_queries g (snd (first_set g1 s))"
| after_derives_epsilon: "after_queries g g1 \<Longrightarrow> after_queries g (snd (derives_epsilon g1 s))"

lemma compute_first_sets_char:
  assumes wf: "grammar_wf g0" and ok: "eps_ok g0 g"
  shows "eps_ok g0 (compute_first_sets g)" and "first_char g0 (compute_first_sets g)"
proof -
  let ?e = "epsilon (symbol_table g0)"
  let ?gi = "g\<lparr>first_sets := first_sets_init (symbol_table g)\<rparr>"
  have oki: "eps_ok g0 ?gi" using ok by simp
  have si: "first_sound g0 ?gi"
    using first_sets_init_self[of "symbol_table g"] by (auto simp: first_sound_def)
  note inv = first_loop_inv[OF wf oki si]
  have fs: "first_sets (compute_first_sets g) = first_sets (first_loop ?gi)"
    by (simp add: compute_first_sets_def Let_def)
  show "eps_ok g0 (compute_first_sets g)"
    using inv by (simp add: compute_first_sets_def Let_def eps_ok_def)
  show "first_char g0 (compute_first_sets g)"
    unfolding first_char_def fs
  proof (intro allI impI iffI)
    fix A
    assume A: "is_nonterminal A" and "?e \<in> set (um_get (first_sets (first_loop ?gi)) A [])"
    then have "A = ?e \<or> nullable g0 A" using inv by (simp add: first_sound_def)
    moreover have "nullable g0 ?e" using wf by (simp add: grammar_wf_def nullable_epsilon)
    ultimately show "nullable g0 A" by auto
  next
    fix A
    assume A: "is_nonterminal A" and n: "nullable g0 A"
    have ne: "\<not> is_epsilon A" using A symbol_type_disjoint by blast
    from n obtain p where p: "p \<in> set (productions g0)" "\<forall>x \<in> set (rhs p). nullable g0 x" "A = lhs p"
      using ne by (auto elim: nullable.cases)
    have "\<forall>x \<in> set (rhs p). um_get (eps_result g0) x False"
    proof
      fix x assume x: "x \<in> set (rhs p)"
      then have "nullable g0 x" using p(2) by simp
      moreover have "is_epsilon x \<longrightarrow> x = ?e" using wf p(1) x by (simp add: grammar_wf_def)
      ultimately show "um_get (eps_result g0) x False" using eps_result_iff[OF wf, of x] by simp
    qed
    then show "?e \<in> set (um_get (first_sets (first_loop ?gi)) A [])"
      using inv p(1,3) by simp
  qed
qed

lemma derives_epsilon_first_flag [simp]:
  "first_sets_computed (snd (derives_epsilon g s)) = first_sets_computed g"
  by (simp add: derives_epsilon_def compute_epsilon_derivers_def Let_def)

lemma compute_first_sets_flag [simp]: "first_sets_computed (compute_first_sets g)"
  by (simp add: compute_first_sets_def Let_def)

lemma after_queries_inv:
  assumes wf: "grammar_wf g"
  shows "after_queries g g1 \<Longrightarrow> eps_ok g g1 \<and> (first_sets_computed g1 \<longrightarrow> first_char g g1)"
proof (induction rule: after_queries.induct)
  case after_none
  then show ?case by (simp add: eps_ok_def)
next
  case (after_first_set g1 s)
  show ?case
  proof (cases "first_sets_computed g1")
    case True
    then show ?thesis using after_first_set.IH by (simp add: first_set_def Let_def)
  next
    case False
    then have "snd (first_set g1 s) = compute_first_sets g1" by (simp add: first_set_def Let_def)
    then show ?thesis using compute_first_sets_char[OF wf, of g1] after_first_set.IH by simp
  qed
next
  case (after_derives_epsilon g1 s)
  then show ?case using derives_epsilon_ok(2)[of g g1 s] by (simp add: first_char_def)
qed

section \<open>The keys of the FIRST and FOLLOW caches\<close>

text \<open>
  The symbols a grammar knows: those registered in its symbol table, epsilon and the end
  marker, the start symbol, and every symbol of a production.
\<close>

definition mentioned :: "Production list \<Rightarrow> Symbol set" where
  "mentioned ps = (\<Union>p \<in> set ps. insert (lhs p) (set (rhs p)))"

definition known_symbols :: "Grammar \<Rightarrow> Symbol set" where
  "known_symbols g =
     set (symbols (symbol_table g))
       \<union> {get_epsilon (symbol_table g), get_end_of_input (symbol_table g)}
       \<union> set_option (start_symbol g) \<union> mentioned (productions g)"

definition um_dom :: "('k \<times> 'v) list \<Rightarrow> 'k set" where
  "um_dom m = fst ` set m"

lemma um_dom_none: "map_of m k = None \<longleftrightarrow> k \<notin> um_dom m"
  by (simp add: um_dom_def map_of_eq_None_iff)

lemma um_dom_Nil [simp]: "um_dom [] = {}"
  by (simp add: um_dom_def)

lemma um_dom_set [simp]: "um_dom (um_set m k v) = insert k (um_dom m)"
  by (simp add: um_dom_def um_set_def dom_update)

lemma um_dom_touch [simp]: "um_dom (um_touch m k d) = insert k (um_dom m)"
proof (cases "map_of m k")
  case None
  then show ?thesis by (simp add: um_touch_def um_dom_def)
next
  case (Some v)
  then have "k \<in> um_dom m" using um_dom_none[of m k] by simp
  then show ?thesis using Some by (auto simp: um_touch_def)
qed

lemma um_dom_fold_set:
  "um_dom (fold (\<lambda>k m. um_set m k (f k m)) ks m) = set ks \<union> um_dom m"
  by (induction ks arbitrary: m) auto

lemma first_sets_init_dom:
  "um_dom (first_sets_init st)
     = set (get_terminals st) \<union> set (get_nonterminals st) \<union> {get_epsilon st, get_end_of_input st}"
proof -
  show ?thesis
    unfolding first_sets_init_def Let_def
    using um_dom_fold_set[of "\<lambda>k m. []" "get_nonterminals st"]
      um_dom_fold_set[of "\<lambda>k m. sym_insert k (um_get m k [])" "get_terminals st" "[]"]
    by auto
qed

lemma first_lhs_insert_dom [simp]:
  "um_dom (first_sets (first_lhs_insert g l xs)) = insert l (um_dom (first_sets g))"
  by (simp add: first_lhs_insert_def)

lemma first_rhs_dom:
  "um_dom (first_sets (first_rhs l rest g)) \<subseteq> um_dom (first_sets g) \<union> insert l (set rest)"
proof (induction rest arbitrary: g)
  case Nil
  then show ?case by auto
next
  case (Cons x rest)
  let ?g1 = "g\<lparr>first_sets := um_touch (first_sets g) x []\<rparr>"
  let ?g2 = "first_lhs_insert ?g1 l (filter (\<lambda>sym. \<not> is_epsilon sym) (um_get (first_sets ?g1) x []))"
  obtain d g3 where dg: "derives_epsilon ?g2 x = (d, g3)" by (cases "derives_epsilon ?g2 x")
  have g3: "g3 = snd (derives_epsilon ?g2 x)" using dg by simp
  have fs3: "first_sets g3 = first_sets ?g2" unfolding g3 by (rule derives_epsilon_first(1))
  have d3: "um_dom (first_sets g3) = insert l (insert x (um_dom (first_sets g)))"
    unfolding fs3 by simp
  have eq: "first_rhs l (x # rest) g =
          (if \<not> d then g3
           else if rest = [] then first_lhs_insert g3 l [get_epsilon (symbol_table g3)]
           else first_rhs l rest g3)"
    using dg by (simp add: Let_def)
  show ?case unfolding eq using d3 Cons.IH[of g3] by auto
qed

lemma first_step_dom:
  "um_dom (first_sets (fst (first_step p gc)))
     \<subseteq> um_dom (first_sets (fst gc)) \<union> insert (lhs p) (set (rhs p))"
proof -
  let ?g1 = "(fst gc)\<lparr>first_sets := um_touch (first_sets (fst gc)) (lhs p) []\<rparr>"
  have "um_dom (first_sets (first_rhs (lhs p) (rhs p) ?g1))
          \<subseteq> um_dom (first_sets ?g1) \<union> insert (lhs p) (set (rhs p))"
    by (rule first_rhs_dom)
  then show ?thesis by (auto simp: first_step_def Let_def)
qed

lemma first_fold_dom:
  "um_dom (first_sets (fst (fold first_step ps gc))) \<subseteq> um_dom (first_sets (fst gc)) \<union> mentioned ps"
proof (induction ps arbitrary: gc)
  case Nil
  then show ?case by simp
next
  case (Cons p ps)
  have "mentioned (p # ps) = insert (lhs p) (set (rhs p)) \<union> mentioned ps"
    by (simp add: mentioned_def)
  then show ?case using Cons.IH[of "first_step p gc"] first_step_dom[of p gc] by auto
qed

lemma first_loop_dom:
  "um_dom (first_sets (first_loop g)) \<subseteq> um_dom (first_sets g) \<union> mentioned (productions g)"
proof (induction g rule: first_loop.induct)
  case (1 g)
  obtain g' changed where fp: "first_pass g = (g', changed)" by (cases "first_pass g")
  have le: "first_le g g'"
    using first_le_fold[of "(g, False)" "productions g"] fp by (simp add: first_pass_def)
  then have pg: "productions g' = productions g" by (simp add: first_le_def)
  have d: "um_dom (first_sets g') \<subseteq> um_dom (first_sets g) \<union> mentioned (productions g)"
    using first_fold_dom[of "productions g" "(g, False)"] fp by (simp add: first_pass_def)
  show ?case
  proof (cases changed)
    case True
    have "first_loop g = first_loop g'" using fp True by (subst first_loop.simps) simp
    then show ?thesis using 1[OF refl fp[symmetric] True] d pg by auto
  next
    case False
    have "first_loop g = g'" using fp False by (subst first_loop.simps) simp
    then show ?thesis using d by simp
  qed
qed

lemma compute_first_sets_dom: "um_dom (first_sets (compute_first_sets g)) \<subseteq> known_symbols g"
proof -
  let ?gi = "g\<lparr>first_sets := first_sets_init (symbol_table g)\<rparr>"
  have "um_dom (first_sets (first_loop ?gi)) \<subseteq> um_dom (first_sets ?gi) \<union> mentioned (productions ?gi)"
    by (rule first_loop_dom)
  then show ?thesis
    by (auto simp: compute_first_sets_def Let_def first_sets_init_dom known_symbols_def
        get_terminals_def get_nonterminals_def)
qed

lemma follow_insert_dom [simp]:
  "um_dom (follow_sets (follow_insert g B xs)) = insert B (um_dom (follow_sets g))"
  by (simp add: follow_insert_def)

lemma follow_add_lhs_dom [simp]:
  "um_dom (follow_sets (follow_add_lhs g A B)) = insert B (insert A (um_dom (follow_sets g)))"
  by (simp add: follow_add_lhs_def Let_def)

lemma follow_visit_dom:
  "um_dom (follow_sets (follow_visit A B beta g)) \<subseteq> insert A (insert B (um_dom (follow_sets g)))"
proof (cases "beta = []")
  case True
  then show ?thesis by (auto simp: follow_visit_def)
next
  case False
  obtain fb g3 where fg: "first_set_seq g beta = (fb, g3)" by (cases "first_set_seq g beta")
  let ?g4 = "follow_insert g3 B (filter (\<lambda>sym. \<not> is_epsilon sym) fb)"
  obtain d g5 where dg: "derives_epsilon_seq ?g4 beta = (d, g5)" by (cases "derives_epsilon_seq ?g4 beta")
  have "aux_le g g3" using first_set_seq_props[of g beta] fg by simp
  then have 3: "follow_sets g3 = follow_sets g" by (simp add: aux_le_def)
  have "aux_le ?g4 g5" using aux_le_derives_epsilon_seq[of ?g4 beta] dg by simp
  then have 5: "follow_sets g5 = follow_sets ?g4" by (simp add: aux_le_def)
  have eq: "follow_visit A B beta g = (if d then follow_add_lhs g5 A B else g5)"
    using False fg dg by (simp add: follow_visit_def Let_def)
  show ?thesis unfolding eq using 3 5 by auto
qed

lemma follow_rhs_dom:
  "um_dom (follow_sets (fst (follow_rhs A beta gc)))
     \<subseteq> um_dom (follow_sets (fst gc)) \<union> insert A (set beta)"
proof (induction beta arbitrary: gc)
  case Nil
  then show ?case by auto
next
  case (Cons B beta)
  show ?case
  proof (cases "is_nonterminal B")
    case False
    then show ?thesis using Cons.IH[of gc] by auto
  next
    case True
    let ?g1 = "(fst gc)\<lparr>follow_sets := um_touch (follow_sets (fst gc)) B []\<rparr>"
    let ?g2 = "follow_visit A B beta ?g1"
    let ?c = "snd gc \<or> length (um_get (follow_sets ?g2) B []) \<noteq> length (um_get (follow_sets ?g1) B [])"
    have eq: "follow_rhs A (B # beta) gc = follow_rhs A beta (?g2, ?c)"
      using True by (simp add: Let_def)
    have 2: "um_dom (follow_sets ?g2) \<subseteq> insert A (insert B (um_dom (follow_sets (fst gc))))"
      using follow_visit_dom[of A B beta ?g1] by auto
    show ?thesis unfolding eq using Cons.IH[of "(?g2, ?c)"] 2 by auto
  qed
qed

lemma follow_fold_dom:
  "um_dom (follow_sets (fst (fold follow_step ps gc))) \<subseteq> um_dom (follow_sets (fst gc)) \<union> mentioned ps"
proof (induction ps arbitrary: gc)
  case Nil
  then show ?case by simp
next
  case (Cons p ps)
  have "mentioned (p # ps) = insert (lhs p) (set (rhs p)) \<union> mentioned ps"
    by (simp add: mentioned_def)
  then show ?case
    using Cons.IH[of "follow_step p gc"] follow_rhs_dom[of "lhs p" "rhs p" gc]
    by (auto simp: follow_step_def)
qed

lemma follow_loop_dom:
  "um_dom (follow_sets (follow_loop g)) \<subseteq> um_dom (follow_sets g) \<union> mentioned (productions g)"
proof (induction g rule: follow_loop.induct)
  case (1 g)
  obtain g' changed where fp: "follow_pass g = (g', changed)" by (cases "follow_pass g")
  have le: "follow_le g g'"
    using follow_fold_props[of "(g, False)" "productions g"] fp by (simp add: follow_pass_def)
  then have pg: "productions g' = productions g" by (simp add: follow_le_def)
  have d: "um_dom (follow_sets g') \<subseteq> um_dom (follow_sets g) \<union> mentioned (productions g)"
    using follow_fold_dom[of "productions g" "(g, False)"] fp by (simp add: follow_pass_def)
  show ?case
  proof (cases changed)
    case True
    have "follow_loop g = follow_loop g'" using fp True by (subst follow_loop.simps) simp
    then show ?thesis using 1[OF refl fp[symmetric] True] d pg by auto
  next
    case False
    have "follow_loop g = g'" using fp False by (subst follow_loop.simps) simp
    then show ?thesis using d by simp
  qed
qed

lemma compute_first_sets_start [simp]: "start_symbol (compute_first_sets g) = start_symbol g"
proof -
  have fl: "start_symbol (first_loop g) = start_symbol g" for g
  proof (induction g rule: first_loop.induct)
    case (1 g)
    have r: "start_symbol (first_rhs l rest g) = start_symbol g" for l rest g
    proof (induction rest arbitrary: g)
      case Nil
      then show ?case by simp
    next
      case (Cons x rest)
      let ?g1 = "g\<lparr>first_sets := um_touch (first_sets g) x []\<rparr>"
      let ?g2 = "first_lhs_insert ?g1 l (filter (\<lambda>sym. \<not> is_epsilon sym) (um_get (first_sets ?g1) x []))"
      obtain d g3 where dg: "derives_epsilon ?g2 x = (d, g3)" by (cases "derives_epsilon ?g2 x")
      have "g3 = snd (derives_epsilon ?g2 x)" using dg by simp
      then have s3: "start_symbol g3 = start_symbol g"
        by (simp add: derives_epsilon_def compute_epsilon_derivers_def Let_def first_lhs_insert_def)
      have eq: "first_rhs l (x # rest) g =
          (if \<not> d then g3
           else if rest = [] then first_lhs_insert g3 l [get_epsilon (symbol_table g3)]
           else first_rhs l rest g3)"
        using dg by (simp add: Let_def)
      show ?case unfolding eq using s3 Cons.IH[of g3] by (simp add: first_lhs_insert_def)
    qed
    have f: "start_symbol (fst (fold first_step ps gc)) = start_symbol (fst gc)" for ps gc
    proof (induction ps arbitrary: gc)
      case Nil
      then show ?case by simp
    next
      case (Cons p ps)
      have "start_symbol (fst (first_step p gc)) = start_symbol (fst gc)"
        by (simp add: first_step_def Let_def r first_lhs_insert_def)
      then show ?case using Cons.IH[of "first_step p gc"] by simp
    qed
    obtain g' changed where fp: "first_pass g = (g', changed)" by (cases "first_pass g")
    have s: "start_symbol g' = start_symbol g"
      using f[of "productions g" "(g, False)"] fp by (simp add: first_pass_def)
    show ?case
    proof (cases changed)
      case True
      have "first_loop g = first_loop g'" using fp True by (subst first_loop.simps) simp
      then show ?thesis using 1[OF refl fp[symmetric] True] s by simp
    next
      case False
      have "first_loop g = g'" using fp False by (subst first_loop.simps) simp
      then show ?thesis using s by simp
    qed
  qed
  show ?thesis
    using fl[of "g\<lparr>first_sets := first_sets_init (symbol_table g)\<rparr>"]
    by (simp add: compute_first_sets_def Let_def del: first_loop.simps)
qed

lemma compute_follow_sets_dom: "um_dom (follow_sets (compute_follow_sets g)) \<subseteq> known_symbols g"
proof -
  define g1 where "g1 = (if \<not> first_sets_computed g then compute_first_sets g else g)"
  define m0 where "m0 = fold (\<lambda>nonterminal m. um_set m nonterminal [])
                          (get_nonterminals (symbol_table g1)) ([] :: Symbol list umap)"
  define m1 where "m1 = (case start_symbol g1 of None \<Rightarrow> m0
             | Some start \<Rightarrow> um_set m0 start (sym_insert (get_end_of_input (symbol_table g1)) (um_get m0 start [])))"
  define g2 where "g2 = follow_loop (g1\<lparr>follow_sets := m1\<rparr>)"
  have fr: "productions g1 = productions g" "symbol_table g1 = symbol_table g"
    "start_symbol g1 = start_symbol g"
    by (simp_all add: g1_def compute_first_sets_frame)
  have m0: "um_dom m0 = set (get_nonterminals (symbol_table g))"
    unfolding m0_def fr(2)
    using um_dom_fold_set[of "\<lambda>k m. []" "get_nonterminals (symbol_table g)" "[]"] by simp
  have m1: "um_dom m1 \<subseteq> set (get_nonterminals (symbol_table g)) \<union> set_option (start_symbol g)"
    unfolding m1_def fr(3) using m0 by (cases "start_symbol g") auto
  have "um_dom (follow_sets g2) \<subseteq> um_dom (follow_sets (g1\<lparr>follow_sets := m1\<rparr>))
          \<union> mentioned (productions (g1\<lparr>follow_sets := m1\<rparr>))"
    unfolding g2_def by (rule follow_loop_dom)
  then have 2: "um_dom (follow_sets g2) \<subseteq> um_dom m1 \<union> mentioned (productions g)"
    using fr(1) by simp
  have "compute_follow_sets g = g2\<lparr>follow_sets_computed := True\<rparr>"
    unfolding compute_follow_sets_def g2_def m1_def m0_def g1_def Let_def by (rule refl)
  then have "follow_sets (compute_follow_sets g) = follow_sets g2" by simp
  then show ?thesis
    using 2 m1 by (auto simp: known_symbols_def get_nonterminals_def)
qed

section \<open>Properties\<close>

subsection \<open>Parse table cells and augmentation\<close>


lemma get_action_set_action_same: "get_action (set_action t s a act) s a = act"
  by (simp add: get_action_def set_action_def Let_def split: option.splits)

lemma get_action_set_action_other:
  "(s', a') \<noteq> (s, a) \<Longrightarrow> get_action (set_action t s a act) s' a' = get_action t s' a'"
  by (auto simp add: get_action_def set_action_def Let_def split: option.splits)

lemma get_action_fold_other:
  "\<forall>w \<in> set ws. (fst w, fst (snd w)) \<noteq> (s, a) \<Longrightarrow>
     get_action (fold (\<lambda>w t. set_action t (fst w) (fst (snd w)) (snd (snd w))) ws t) s a = get_action t s a"
  by (induction ws arbitrary: t) (auto simp: get_action_set_action_other)

text \<open>
  C1 (as amended). \<open>set_action\<close> writes the new action into the cell in every case, so
  \<open>get_action\<close> returns the action of the last assignment to the cell, whatever
  later assignments to other cells do. When the cell held a different action, one
  conflict description naming the state, the terminal, the existing and the new action
  is appended to the conflict list.
\<close>
theorem set_action_last_assignment:
  "get_action (set_action t s a act) s a = act
   \<and> (\<forall>e. action_table t (s, a) = Some e \<longrightarrow> e \<noteq> act \<longrightarrow>
          conflicts (set_action t s a act) = conflicts t @ [conflict_message s a e act])
   \<and> (\<forall>ws :: (int \<times> Symbol \<times> Action) list. (\<forall>w \<in> set ws. (fst w, fst (snd w)) \<noteq> (s, a)) \<longrightarrow>
          get_action (fold (\<lambda>w t. set_action t (fst w) (fst (snd w)) (snd (snd w))) ws
                       (set_action t s a act)) s a = act)"
proof (intro conjI allI impI)
  show "get_action (set_action t s a act) s a = act"
    by (rule get_action_set_action_same)
next
  fix e assume "action_table t (s, a) = Some e" "e \<noteq> act"
  then show "conflicts (set_action t s a act) = conflicts t @ [conflict_message s a e act]"
    by (auto simp: set_action_def Let_def)
next
  fix ws :: "(int \<times> Symbol \<times> Action) list"
  assume "\<forall>w \<in> set ws. (fst w, fst (snd w)) \<noteq> (s, a)"
  then show "get_action (fold (\<lambda>w t. set_action t (fst w) (fst (snd w)) (snd (snd w))) ws
                       (set_action t s a act)) s a = act"
    by (simp add: get_action_fold_other get_action_set_action_same)
qed

theorem set_action_last_assignment_witness:
  "get_action (set_action (set_action (new_ParseTable 1 [mk_terminal 2 ''a'' 3] []) 0 (mk_terminal 2 ''a'' 3) (mk_action SHIFT 1))
       0 (mk_terminal 2 ''a'' 3) (mk_action REDUCE 2)) 0 (mk_terminal 2 ''a'' 3) = mk_action REDUCE 2
   \<and> conflicts (set_action (set_action (new_ParseTable 1 [mk_terminal 2 ''a'' 3] []) 0 (mk_terminal 2 ''a'' 3) (mk_action SHIFT 1))
       0 (mk_terminal 2 ''a'' 3) (mk_action REDUCE 2))
     = [''Action conflict in state 0 on terminal a: existing=s1, new=r2'']"
proof -
  let ?a = "mk_terminal 2 ''a'' 3"
  let ?t = "set_action (new_ParseTable 1 [?a] []) 0 ?a (mk_action SHIFT 1)"
  have e: "action_table ?t (0, ?a) = Some (mk_action SHIFT 1)"
    by (simp add: set_action_def new_ParseTable_def)
  have ne: "mk_action SHIFT 1 \<noteq> mk_action REDUCE 2"
    by (simp add: mk_action_def)
  have c0: "conflicts ?t = []"
    by (simp add: set_action_def new_ParseTable_def)
  have msg: "conflict_message 0 ?a (mk_action SHIFT 1) (mk_action REDUCE 2)
     = ''Action conflict in state 0 on terminal a: existing=s1, new=r2''"
    by (simp add: conflict_message_def to_string_def Action_to_string_def mk_action_def mk_terminal_def)
  from set_action_last_assignment[of ?t 0 ?a "mk_action REDUCE 2"] e ne c0 msg
  show ?thesis by simp
qed

theorem set_action_first_kept_counterexample:
  "get_action (set_action (set_action (new_ParseTable 1 [mk_terminal 2 ''a'' 3] []) 0 (mk_terminal 2 ''a'' 3) (mk_action SHIFT 1))
       0 (mk_terminal 2 ''a'' 3) (mk_action REDUCE 2)) 0 (mk_terminal 2 ''a'' 3) \<noteq> mk_action SHIFT 1"
  by (simp add: get_action_def set_action_def new_ParseTable_def mk_action_def)

text \<open>
  C10. Without a start symbol \<open>augment\<close> returns the grammar as it is: symbol
  table, productions, start symbol, the augmented flag and the caches are the same.
\<close>
theorem augment_without_start_symbol:
  "start_symbol g = None \<Longrightarrow> augment g a_sym a_prod = g"
  by (simp add: augment_def)

theorem augment_without_start_symbol_witness:
  "augment (new_Grammar 0 1) 2 3 = new_Grammar 0 1
   \<and> productions (augment (new_Grammar 0 1) 2 3) = []
   \<and> \<not> is_augmented (augment (new_Grammar 0 1) 2 3)"
proof -
  have "start_symbol (new_Grammar 0 1) = None"
    by (simp add: new_Grammar_def)
  from augment_without_start_symbol[OF this, of 2 3]
  show ?thesis by (simp add: new_Grammar_def)
qed


lemma get_nonterminal_props:
  assumes "get_nonterminal st n a = (s, st')"
  shows "sym_name s = n" and "is_nonterminal s" and "s \<in> set (symbols st')"
    and "s \<in> set (symbols st) \<longleftrightarrow> (\<exists>x \<in> set (symbols st). sym_name x = n \<and> is_nonterminal x)"
    and "set (symbols st') = insert s (set (symbols st))"
proof -
  show "sym_name s = n" using assms
    by (auto simp: get_nonterminal_def Let_def mk_symbol_def find_Some_iff split: option.splits)
  show nt: "is_nonterminal s" using assms
    by (auto simp: get_nonterminal_def Let_def mk_symbol_def is_nonterminal_def find_Some_iff split: option.splits)
  show "s \<in> set (symbols st')" using assms
    by (auto simp: get_nonterminal_def Let_def find_Some_iff split: option.splits)
  show "s \<in> set (symbols st) \<longleftrightarrow> (\<exists>x \<in> set (symbols st). sym_name x = n \<and> is_nonterminal x)"
  proof (cases "find (\<lambda>s. sym_name s = n \<and> is_nonterminal s) (symbols st)")
    case None
    then have "s = mk_symbol a n NONTERMINAL" using assms
      by (simp add: get_nonterminal_def Let_def)
    then have "sym_name s = n \<and> is_nonterminal s"
      by (simp add: mk_symbol_def is_nonterminal_def)
    then show ?thesis using None by (auto simp: find_None_iff)
  next
    case (Some x)
    then have sx: "s = x" using assms by (simp add: get_nonterminal_def)
    from Some obtain i where "i < length (symbols st)" "x = symbols st ! i"
      "sym_name x = n" "is_nonterminal x"
      by (auto simp: find_Some_iff)
    then have "x \<in> set (symbols st)" "sym_name x = n \<and> is_nonterminal x" by auto
    then show ?thesis using sx by blast
  qed
  show "set (symbols st') = insert s (set (symbols st))" using assms
    by (auto simp: get_nonterminal_def Let_def find_Some_iff split: option.splits)
qed

text \<open>
  C6 (as amended). For a grammar with start symbol \<open>S\<close> that is not yet augmented,
  \<open>augment\<close> makes the nonterminal named \<open>S'\<close> the start symbol, puts the
  production \<open>S' -> S\<close> at index 0 in front of the old productions and sets the
  augmented flag; a second call changes nothing. The symbol \<open>S'\<close> is new to the symbol
  table exactly when the table held no nonterminal of that name: otherwise the existing
  nonterminal is taken. \<open>a_prod\<close>, the address of the new production object, is
  not the address of a production of the grammar.
\<close>

theorem augment_start_production:
  assumes "start_symbol g = Some S" and "\<not> is_augmented g"
    and "a_prod \<notin> prod_addr ` set (productions g)"
  shows "\<exists>S'. start_symbol (augment g a_sym a_prod) = Some S'
     \<and> is_nonterminal S' \<and> sym_name S' = sym_name S @ [CHR 0x27]
     \<and> S' \<in> set (symbols (symbol_table (augment g a_sym a_prod)))
     \<and> (S' \<in> set (symbols (symbol_table g)) \<longleftrightarrow>
          (\<exists>x \<in> set (symbols (symbol_table g)). sym_name x = sym_name S @ [CHR 0x27] \<and> is_nonterminal x))
     \<and> productions (augment g a_sym a_prod) = \<lparr>prod_addr = a_prod, lhs = S', rhs = [S]\<rparr> # productions g
     \<and> is_augmented (augment g a_sym a_prod)
     \<and> augment (augment g a_sym a_prod) b_sym b_prod = augment g a_sym a_prod"
proof -
  obtain S' st where gn: "get_nonterminal (symbol_table g) (sym_name S @ [CHR 0x27]) a_sym = (S', st)"
    by (cases "get_nonterminal (symbol_table g) (sym_name S @ [CHR 0x27]) a_sym")
  let ?p = "\<lparr>prod_addr = a_prod, lhs = S', rhs = [S]\<rparr>"
  have notin: "?p \<notin> set (productions g)"
    using assms(3) by force
  have rm: "remove1 ?p (productions g @ [?p]) = productions g"
    using notin by (simp add: remove1_append)
  have aug: "augment g a_sym a_prod =
      clear_cache (g\<lparr>symbol_table := st, productions := ?p # productions g,
                     start_symbol := Some S', is_augmented := True\<rparr>)"
    using assms(1,2) gn rm by (simp add: augment_def add_production_def Let_def clear_cache_def)
  have "is_augmented (augment g a_sym a_prod)"
    by (simp add: aug clear_cache_def)
  then have idem: "augment (augment g a_sym a_prod) b_sym b_prod = augment g a_sym a_prod"
    by (subst augment_def) simp
  show ?thesis
    using get_nonterminal_props[OF gn] idem
    by (intro exI[of _ S']) (simp add: aug clear_cache_def)
qed


lemma demo_grammar_eval:
  "start_symbol demo_grammar = Some (mk_symbol 2 ''E'' NONTERMINAL)"
  "\<not> is_augmented demo_grammar"
  "prod_addr ` set (productions demo_grammar) = {6, 7, 8}"
  by (simp_all add: demo_grammar_def new_Grammar_def new_SymbolTable_def get_nonterminal_def
      get_terminal_def add_production_def set_start_symbol_def clear_cache_def Let_def
      sym_insert_def mk_symbol_def mk_terminal_def is_nonterminal_def is_terminal_def)

theorem augment_start_production_witness:
  "start_symbol demo_grammar = Some (mk_symbol 2 ''E'' NONTERMINAL)
   \<and> \<not> is_augmented demo_grammar
   \<and> 10 \<notin> prod_addr ` set (productions demo_grammar)
   \<and> (\<exists>S'. start_symbol (augment demo_grammar 9 10) = Some S'
        \<and> sym_name S' = [CHR ''E'', CHR 0x27]
        \<and> productions (augment demo_grammar 9 10)
            = \<lparr>prod_addr = 10, lhs = S', rhs = [mk_symbol 2 ''E'' NONTERMINAL]\<rparr> # productions demo_grammar
        \<and> augment (augment demo_grammar 9 10) 11 12 = augment demo_grammar 9 10)"
proof -
  have 3: "10 \<notin> prod_addr ` set (productions demo_grammar)"
    by (simp add: demo_grammar_eval)
  from augment_start_production[OF demo_grammar_eval(1) demo_grammar_eval(2) 3, of 9 11 12]
  show ?thesis using demo_grammar_eval 3 by (auto simp: mk_symbol_def)
qed

theorem augment_fresh_start_counterexample:
  "the (start_symbol (augment primed_grammar 7 8)) \<in> set (symbols (symbol_table primed_grammar))"
  by (simp add: primed_grammar_def augment_def new_Grammar_def new_SymbolTable_def get_nonterminal_def
      get_terminal_def add_production_def set_start_symbol_def clear_cache_def Let_def
      sym_insert_def mk_symbol_def mk_terminal_def is_nonterminal_def is_terminal_def)

subsection \<open>Table construction and its guard\<close>

lemma new_LALR1Generator_fields:
  "new_LALR1Generator g = Some (Inr gen) \<Longrightarrow>
     grammar gen = g \<and> lalr_states gen = [] \<and> new_LR0Automaton g = Some (Inr (lr0_automaton gen))"
  by (cases "new_LR0Automaton g"; cases "the (new_LR0Automaton g)")
     (auto simp: new_LALR1Generator_def)

text \<open>
  C2 (as amended). \<open>generate_table\<close> fails with its one error, and returns no table,
  for every generator whose grammar has not been augmented. This is the only condition it
  tests: the start symbol and the number of productions are not looked at.
\<close>

theorem generate_table_not_augmented:
  "\<not> is_augmented (grammar gen) \<Longrightarrow> generate_table gen = Inl NotAugmented"
  by (simp add: generate_table_def)

theorem generate_table_not_augmented_witness:
  "\<not> is_augmented demo_grammar \<and> build_table demo_grammar = Some (Inr (Inl NotAugmented))"
proof -
  have na: "\<not> is_augmented demo_grammar"
    by code_simp
  have "case new_LALR1Generator demo_grammar of Some (Inr gen) \<Rightarrow> True | _ \<Rightarrow> False"
    by code_simp
  then obtain gen where gen: "new_LALR1Generator demo_grammar = Some (Inr gen)"
    by (auto split: option.splits sum.splits)
  then have "grammar gen = demo_grammar"
    using new_LALR1Generator_fields by blast
  then have "generate_table gen = Inl NotAugmented"
    using generate_table_not_augmented[of gen] na by simp
  then show ?thesis using na gen by (simp add: build_table_def)
qed

theorem generate_table_no_start_counterexample:
  "start_symbol (set_start_symbol demo_augmented None) = None
   \<and> map_option (map_sum id (map_sum id conflicts)) (build_table (set_start_symbol demo_augmented None))
       = Some (Inr (Inr []))"
  by code_simp

subsection \<open>The driver\<close>


text \<open>
  C4 (as amended). When the action of the top state on the current terminal is Accept,
  the driver returns at once: with two or more frames on the stack it succeeds with the
  node of the top frame, whatever the frames are, and with one frame it fails with
  "Invalid stack state at accept" at the position of the current token.
\<close>

theorem accept_checks_stack_size:
  assumes "stack ps = top_el # rest"
    and "find_terminal g (current_token ps) = Some terminal"
    and "is_accept (get_action table (se_state top_el) terminal)"
  shows "parse_loop g table ps =
           Some (Inr (if length (stack ps) \<ge> 2 then ParseSuccess (se_node top_el)
                      else ParseFailure ''Invalid stack state at accept''
                             (tok_line (current_token ps)) (tok_column (current_token ps))))"
proof -
  have "\<not> is_shift (get_action table (se_state top_el) terminal)"
    "\<not> is_reduce (get_action table (se_state top_el) terminal)"
    using assms(3) by (simp_all add: is_accept_def is_shift_def is_reduce_def)
  then have "parse_step g table ps =
      Done (if length (stack ps) \<ge> 2 then ParseSuccess (se_node top_el)
            else ParseFailure ''Invalid stack state at accept''
                   (tok_line (current_token ps)) (tok_column (current_token ps)))"
    using assms by (simp add: parse_step_def Let_def)
  then show ?thesis by (subst parse_loop.simps) simp
qed

theorem accept_checks_stack_size_witness:
  "case build_table demo_augmented of
     Some (Inr (Inr table)) \<Rightarrow>
       is_accept (get_action table 1 (get_end_of_input (symbol_table demo_augmented)))
       \<and> parse_loop demo_augmented table
             \<lparr>stack = [mk_StackElement 1 None None, mk_StackElement 0 None None],
              current_token = \<lparr>tok_type = EOF_TOKEN, tok_value = [], tok_line = 1, tok_column = 1\<rparr>,
              lexer = lexer_of []\<rparr>
           = Some (Inr (ParseSuccess None))
   | _ \<Rightarrow> False"
proof -
  let ?ps = "\<lparr>stack = [mk_StackElement 1 None None, mk_StackElement 0 None None],
      current_token = \<lparr>tok_type = EOF_TOKEN, tok_value = [], tok_line = 1, tok_column = 1\<rparr>,
      lexer = lexer_of []\<rparr>"
  have "case build_table demo_augmented of
     Some (Inr (Inr table)) \<Rightarrow>
       is_accept (get_action table 1 (get_end_of_input (symbol_table demo_augmented)))
   | _ \<Rightarrow> False"
    by code_simp
  then obtain table where bt: "build_table demo_augmented = Some (Inr (Inr table))"
    and acc: "is_accept (get_action table 1 (get_end_of_input (symbol_table demo_augmented)))"
    by (auto split: option.splits sum.splits)
  have 1: "stack ?ps = mk_StackElement 1 None None # [mk_StackElement 0 None None]"
    by simp
  have 2: "find_terminal demo_augmented (current_token ?ps)
             = Some (get_end_of_input (symbol_table demo_augmented))"
    by (simp add: find_terminal_def is_eof_def)
  have 3: "is_accept (get_action table (se_state (mk_StackElement 1 None None))
             (get_end_of_input (symbol_table demo_augmented)))"
    using acc by (simp add: mk_StackElement_def)
  from accept_checks_stack_size[OF 1 2 3] acc show ?thesis
    by (simp add: bt mk_StackElement_def)
qed

theorem accept_root_not_start_counterexample:
  "map_option (map_sum id (map_sum id (\<lambda>t. parse_internal quote_grammar t (lexer_of [(NUMBER, ''7'')]))))
     (build_table quote_grammar)
   = Some (Inr (Inr (Some (Inr (ParseSuccess (Some (ParseNode (mk_terminal 4 ''num'' NUMBER) ''7'' [])))))))"
  by code_simp

subsection \<open>The canonical collection returns\<close>

lemma finite_item_ok: "finite {it. item_ok g it}"
proof -
  have "{it. item_ok g it}
      \<subseteq> (\<lambda>(p, d). \<lparr>production = p, dot_position = d\<rparr>)
            ` (SIGMA p : set (productions g). {..length (rhs p)})"
  proof
    fix it assume "it \<in> {it. item_ok g it}"
    then have "(production it, dot_position it) \<in> (SIGMA p : set (productions g). {..length (rhs p)})"
      by (simp add: item_ok_def)
    moreover have "it = (\<lambda>(p, d). \<lparr>production = p, dot_position = d\<rparr>) (production it, dot_position it)"
      by (cases it) simp
    ultimately show "it \<in> (\<lambda>(p, d). \<lparr>production = p, dot_position = d\<rparr>)
            ` (SIGMA p : set (productions g). {..length (rhs p)})"
      by (rule rev_image_eqI)
  qed
  moreover have "finite ((\<lambda>(p, d). \<lparr>production = p, dot_position = d\<rparr>)
            ` (SIGMA p : set (productions g). {..length (rhs p)}))"
    by (intro finite_imageI finite_SigmaI) simp_all
  ultimately show ?thesis by (rule finite_subset)
qed

lemma finite_item_lists: "finite (item_lists g)"
  unfolding item_lists_def using finite_subset_distinct[OF finite_item_ok] .

lemma distinct_item_insert [simp]: "distinct (item_insert x xs) = distinct xs"
  by (auto simp: item_insert_def distinct_insort)

lemma distinct_fold_item_insert [simp]: "distinct (fold item_insert ys xs) = distinct xs"
  by (induction ys arbitrary: xs) simp_all

lemma closure_loop_props:
  "set (closure_loop g r) \<subseteq> set r \<union> {it. dot_position it = 0 \<and> production it \<in> set (productions g)}
   \<and> (distinct r \<longrightarrow> distinct (closure_loop g r))"
proof (induction g r rule: closure_loop.induct)
  case (1 g result)
  obtain new_items changed where cp: "closure_pass g result = (new_items, changed)"
    by (cases "closure_pass g result")
  let ?r' = "fold item_insert new_items result"
  have inv: "closure_inv g result (new_items, changed)"
    using closure_pass_inv[of g result] cp by simp
  have sub: "set ?r' \<subseteq> set result \<union> {it. dot_position it = 0 \<and> production it \<in> set (productions g)}"
    using inv by (auto simp: closure_inv_def)
  have d: "distinct result \<longrightarrow> distinct ?r'" by simp
  show ?case
  proof (cases changed)
    case True
    have eq: "closure_loop g result = closure_loop g ?r'"
      using cp True by (subst closure_loop.simps) (simp add: Let_def del: closure_loop.simps)
    show ?thesis unfolding eq using 1[OF refl cp[symmetric] refl True] sub d by blast
  next
    case False
    have eq: "closure_loop g result = ?r'"
      using cp False by (subst closure_loop.simps) (simp add: Let_def del: closure_loop.simps)
    show ?thesis unfolding eq using sub d by blast
  qed
qed

lemma set_get_items_for_symbol:
  "set (get_items_for_symbol st X) = {it \<in> set (items st). next_symbol it = Some X}"
proof -
  have "set (fold (\<lambda>item result. if next_symbol item = Some X then item_insert item result else result) xs acc)
          = set acc \<union> {it \<in> set xs. next_symbol it = Some X}" for xs acc
    by (induction xs arbitrary: acc) auto
  then show ?thesis by (simp add: get_items_for_symbol_def)
qed

lemma kernel_props:
  "set (fold (\<lambda>item s. item_insert (advance item) s) ys acc) = set acc \<union> advance ` set ys
   \<and> (distinct (fold (\<lambda>item s. item_insert (advance item) s) ys acc) = distinct acc)"
  by (induction ys arbitrary: acc) auto

lemma goto_items_ok:
  fixes cur :: LR0State and X :: Symbol and g :: Grammar
  assumes "\<forall>it \<in> set (items cur). item_ok g it"
  defines "G \<equiv> closure (fold (\<lambda>item s. item_insert (advance item) s) (get_items_for_symbol cur X) []) g"
  shows "distinct G" and "\<forall>it \<in> set G. item_ok g it" and "entered_on X G"
proof -
  let ?K = "fold (\<lambda>item s. item_insert (advance item) s) (get_items_for_symbol cur X) []"
  have K: "set ?K = advance ` {it \<in> set (items cur). next_symbol it = Some X}" and dK: "distinct ?K"
    using kernel_props[of "get_items_for_symbol cur X" "[]"] by (simp_all add: set_get_items_for_symbol)
  have kern: "item_ok g k \<and> 0 < dot_position k \<and> rhs (production k) ! (dot_position k - 1) = X"
    if "k \<in> set ?K" for k
  proof -
    from that K obtain it where it: "it \<in> set (items cur)" "next_symbol it = Some X" "k = advance it"
      by auto
    have "\<not> is_complete it" "X = rhs (production it) ! dot_position it"
      using it(2) by (auto simp: next_symbol_def split: if_splits)
    then show ?thesis using assms(1) it(1,3) by (auto simp: item_ok_def is_complete_def advance_def)
  qed
  have sub: "set G \<subseteq> set ?K \<union> {it. dot_position it = 0 \<and> production it \<in> set (productions g)}"
    using closure_loop_props[of g ?K] by (simp add: G_def closure_def)
  show "distinct G" using closure_loop_props[of g ?K] dK by (simp add: G_def closure_def)
  show "\<forall>it \<in> set G. item_ok g it"
    using sub kern by (auto simp: item_ok_def)
  show "entered_on X G"
    unfolding entered_on_def using sub kern by auto
qed

lemma lr0_inv_id_bound:
  assumes "lr0_inv g states tr work" and "s \<in> set states"
  shows "state_id s < int (length states)" and "0 \<le> state_id s" and "states ! nat (state_id s) = s"
proof -
  from assms(2) obtain i where i: "i < length states" "states ! i = s"
    by (auto simp: in_set_conv_nth)
  then have "state_id s = int i" using assms(1) by (auto simp: lr0_inv_def)
  then show "state_id s < int (length states)" "0 \<le> state_id s" "states ! nat (state_id s) = s"
    using i by simp_all
qed

lemma lr0_visit_step:
  assumes inv: "lr0_inv g states tr work" and cur: "cur \<in> set states"
  shows "\<exists>new tr'. lr0_visit g cur X (states, tr, work) = (states @ new, tr', work @ new)
           \<and> lr0_inv g (states @ new) tr' (work @ new)"
proof -
  let ?G = "closure (fold (\<lambda>item s. item_insert (advance item) s) (get_items_for_symbol cur X) []) g"
  have curok: "\<forall>it \<in> set (items cur). item_ok g it" using inv cur by (auto simp: lr0_inv_def)
  note G = goto_items_ok[where X = X, OF curok]
  show ?thesis
  proof (cases "find (\<lambda>existing_state. items existing_state = ?G) states")
    case (Some t)
    then have t: "t \<in> set states" "items t = ?G"
      by (auto simp: find_Some_iff)
    let ?tr = "tr((state_id cur, X) \<mapsto> state_id t)"
    have eq: "lr0_visit g cur X (states, tr, work) = (states @ [], ?tr, work @ [])"
      using Some by (simp add: lr0_visit_def Let_def)
    have "lr0_inv g states ?tr work"
      using inv t G(3) unfolding lr0_inv_def by auto
    then show ?thesis using eq by (intro exI[of _ "[]"] exI[of _ ?tr]) simp
  next
    case None
    then have new: "?G \<notin> items ` set states" by (auto simp: find_None_iff)
    let ?t = "\<lparr>state_id = int (length states), items = ?G\<rparr>"
    let ?tr = "tr((state_id cur, X) \<mapsto> state_id ?t)"
    have eq: "lr0_visit g cur X (states, tr, work) = (states @ [?t], ?tr, work @ [?t])"
      using None by (simp add: lr0_visit_def Let_def)
    have ids: "\<forall>i < length (states @ [?t]). state_id ((states @ [?t]) ! i) = int i"
      using inv by (auto simp: lr0_inv_def nth_append)
    have dist: "distinct (map items (states @ [?t]))"
      using inv new by (auto simp: lr0_inv_def)
    have ok: "\<forall>s \<in> set (states @ [?t]). distinct (items s) \<and> (\<forall>it \<in> set (items s). item_ok g it)"
      using inv G(1,2) by (auto simp: lr0_inv_def)
    have sub: "set (work @ [?t]) \<subseteq> set (states @ [?t])"
      using inv by (auto simp: lr0_inv_def)
    have "\<forall>s \<in> set work. state_id s < int (length states)"
      using inv lr0_inv_id_bound(1)[OF inv] by (auto simp: lr0_inv_def)
    then have sorted: "sorted_wrt (\<lambda>a b. state_id a < state_id b) (work @ [?t])"
      using inv by (auto simp: lr0_inv_def sorted_wrt_append)
    have trans: "\<forall>i Y j. ?tr (i, Y) = Some j \<longrightarrow>
            (\<exists>t \<in> set (states @ [?t]). state_id t = j \<and> entered_on Y (items t))"
    proof (intro allI impI)
      fix i Y j assume a: "?tr (i, Y) = Some j"
      show "\<exists>t \<in> set (states @ [?t]). state_id t = j \<and> entered_on Y (items t)"
      proof (cases "(i, Y) = (state_id cur, X)")
        case True
        then have "j = state_id ?t" "Y = X" using a by simp_all
        then show ?thesis using G(3) by auto
      next
        case False
        then have "tr (i, Y) = Some j" using a by (simp split: if_splits)
        then show ?thesis using inv by (auto simp: lr0_inv_def)
      qed
    qed
    have "lr0_inv g (states @ [?t]) ?tr (work @ [?t])"
      unfolding lr0_inv_def using ids dist ok sub sorted trans by blast
    then show ?thesis using eq by blast
  qed
qed

lemma lr0_visit_fold_step:
  assumes "lr0_inv g states tr work" and "cur \<in> set states"
  shows "\<exists>new tr'. fold (lr0_visit g cur) syms (states, tr, work) = (states @ new, tr', work @ new)
           \<and> lr0_inv g (states @ new) tr' (work @ new)"
  using assms
proof (induction syms arbitrary: states tr work)
  case Nil
  then show ?case by (intro exI[of _ "[]"] exI[of _ tr]) simp
next
  case (Cons X syms)
  from lr0_visit_step[OF Cons.prems, of X] obtain new1 tr1 where
    1: "lr0_visit g cur X (states, tr, work) = (states @ new1, tr1, work @ new1)"
    and i1: "lr0_inv g (states @ new1) tr1 (work @ new1)" by blast
  have "cur \<in> set (states @ new1)" using Cons.prems(2) by simp
  from Cons.IH[OF i1 this] obtain new2 tr2 where
    2: "fold (lr0_visit g cur) syms (states @ new1, tr1, work @ new1)
          = ((states @ new1) @ new2, tr2, (work @ new1) @ new2)"
    and i2: "lr0_inv g ((states @ new1) @ new2) tr2 ((work @ new1) @ new2)" by blast
  show ?case using 1 2 i2 by (intro exI[of _ "new1 @ new2"] exI[of _ tr2]) simp
qed

lemma lr0_inv_length:
  assumes "lr0_inv g states tr work"
  shows "length states \<le> card (item_lists g)"
proof -
  have "set (map items states) \<subseteq> item_lists g"
    using assms by (auto simp: lr0_inv_def item_lists_def)
  then have "card (set (map items states)) \<le> card (item_lists g)"
    by (intro card_mono finite_item_lists)
  moreover have "card (set (map items states)) = length states"
    using assms distinct_card[of "map items states"] by (simp add: lr0_inv_def)
  ultimately show ?thesis by simp
qed

lemma newest_last:
  assumes "sorted_wrt (\<lambda>a b. state_id a < state_id b) work" and "work \<noteq> []"
  shows "newest work = last work" and "remove1 (last work) work = butlast work"
proof -
  obtain xs x where w: "work = xs @ [x]" using assms(2) by (cases work rule: rev_cases) auto
  have lt: "\<forall>s \<in> set xs. state_id s < state_id x"
    using assms(1) w by (auto simp: sorted_wrt_append)
  have mem: "fold (\<lambda>s b. if state_id b < state_id s then s else b) ys b \<in> insert b (set ys)"
    for ys and b :: LR0State
    by (induction ys arbitrary: b) auto
  let ?f = "fold (\<lambda>s b. if state_id b < state_id s then s else b) xs (hd (xs @ [x]))"
  have "?f = x \<or> ?f \<in> set xs"
    using mem[of xs "hd (xs @ [x])"] by (cases xs) auto
  then have "(if state_id ?f < state_id x then x else ?f) = x" using lt by auto
  then show "newest work = last work" by (simp add: newest_def w)
  have "x \<notin> set xs" using lt by auto
  then show "remove1 (last work) work = butlast work"
    by (simp add: w remove1_append)
qed

lemma lr0_loop_total:
  assumes "lr0_inv g states tr work"
  shows "\<exists>ext tr'. lr0_loop g (states, tr, work) = Some (states @ ext, tr')
           \<and> depth_first g (states, tr, work) (states @ ext, tr')
           \<and> lr0_inv g (states @ ext) tr' []"
  using assms
proof (induction "2 * (card (item_lists g) - length states) + length work"
         arbitrary: states tr work rule: less_induct)
  case less
  show ?case
  proof (cases "work = []")
    case True
    have "lr0_loop g (states, tr, work) = Some (states @ [], tr)"
      using True by (subst lr0_loop.simps) simp
    moreover have "depth_first g (states, tr, work) (states @ [], tr)"
      using True by (simp add: df_done)
    ultimately show ?thesis using less.prems True by (intro exI[of _ "[]"] exI[of _ tr]) simp
  next
    case False
    let ?cur = "last work"
    have cur: "?cur \<in> set states" using less.prems False by (auto simp: lr0_inv_def)
    have inv1: "lr0_inv g states tr (butlast work)"
    proof -
      have "set (butlast work) \<subseteq> set states"
        using less.prems by (auto simp: lr0_inv_def dest: in_set_butlastD)
      moreover have "sorted_wrt (\<lambda>a b. state_id a < state_id b) (butlast work)"
        using less.prems False append_butlast_last_id[of work]
        by (metis lr0_inv_def sorted_wrt_append)
      ultimately show ?thesis using less.prems unfolding lr0_inv_def by blast
    qed
    from lr0_visit_fold_step[OF inv1 cur, of "get_transition_symbols ?cur"] obtain new tr1 where
      f: "fold (lr0_visit g ?cur) (get_transition_symbols ?cur) (states, tr, butlast work)
            = (states @ new, tr1, butlast work @ new)"
      and inv2: "lr0_inv g (states @ new) tr1 (butlast work @ new)" by blast
    have bound: "length (states @ new) \<le> card (item_lists g)" using inv2 by (rule lr0_inv_length)
    have "length (butlast work) + 1 = length work" using False by simp
    then have m: "2 * (card (item_lists g) - length (states @ new)) + length (butlast work @ new)
        < 2 * (card (item_lists g) - length states) + length work"
      using bound by (cases new) auto
    from less.hyps[OF m inv2] obtain ext tr' where
      l: "lr0_loop g (states @ new, tr1, butlast work @ new) = Some ((states @ new) @ ext, tr')"
      and d: "depth_first g (states @ new, tr1, butlast work @ new) ((states @ new) @ ext, tr')"
      and i: "lr0_inv g ((states @ new) @ ext) tr' []" by blast
    have sorted: "sorted_wrt (\<lambda>a b. state_id a < state_id b) work"
      using less.prems by (simp add: lr0_inv_def)
    have 1: "lr0_loop g (states, tr, work) = Some (states @ (new @ ext), tr')"
      using False f l by (subst lr0_loop.simps) (simp add: Let_def)
    have 2: "depth_first g (states, tr, work) (states @ (new @ ext), tr')"
    proof (rule df_expand[OF False])
      show "?cur = newest work" using newest_last(1)[OF sorted False] by simp
      show "depth_first g (fold (lr0_visit g ?cur) (get_transition_symbols ?cur)
                             (states, tr, remove1 ?cur work)) (states @ (new @ ext), tr')"
        using d f newest_last(2)[OF sorted False] by simp
    qed
    show ?thesis using 1 2 i by (intro exI[of _ "new @ ext"] exI[of _ tr']) simp
  qed
qed

lemma depth_first_deterministic:
  "depth_first g w y \<Longrightarrow> depth_first g w y' \<Longrightarrow> y = y'"
proof (induction arbitrary: y' rule: depth_first.induct)
  case (df_done states transitions)
  then show ?case by (auto elim: depth_first.cases)
next
  case (df_expand pending current states transitions y)
  from df_expand.prems df_expand.hyps(1,2) have
    "depth_first g (fold (lr0_visit g current) (get_transition_symbols current)
                      (states, transitions, remove1 current pending)) y'"
    by (auto elim: depth_first.cases)
  then show ?case by (rule df_expand.IH)
qed

lemma initial_lr0_inv:
  assumes "productions g \<noteq> []"
  shows "lr0_inv g [initial_lr0_state g] Map.empty [initial_lr0_state g]"
    and "\<forall>it \<in> set (items (initial_lr0_state g)). dot_position it = 0"
proof -
  let ?i0 = "\<lparr>production = hd (productions g), dot_position = 0\<rparr>"
  have p: "hd (productions g) \<in> set (productions g)" using assms by simp
  have sub: "set (closure [?i0] g) \<subseteq> set [?i0] \<union> {it. dot_position it = 0 \<and> production it \<in> set (productions g)}"
    and d: "distinct (closure [?i0] g)"
    using closure_loop_props[of g "[?i0]"] by (simp_all add: closure_def)
  have ok: "\<forall>it \<in> set (closure [?i0] g). item_ok g it \<and> dot_position it = 0"
    using sub p by (auto simp: item_ok_def)
  show "lr0_inv g [initial_lr0_state g] Map.empty [initial_lr0_state g]"
    using ok d by (simp add: lr0_inv_def initial_lr0_state_def)
  show "\<forall>it \<in> set (items (initial_lr0_state g)). dot_position it = 0"
    using ok by (simp add: initial_lr0_state_def)
qed

lemma new_LR0Automaton_total:
  assumes "productions g \<noteq> []"
  shows "\<exists>aut ext. new_LR0Automaton g = Some (Inr aut)
           \<and> lr0_states aut = initial_lr0_state g # ext
           \<and> depth_first g ([initial_lr0_state g], Map.empty, [initial_lr0_state g])
                (lr0_states aut, lr0_transitions aut)
           \<and> lr0_inv g (lr0_states aut) (lr0_transitions aut) []"
proof -
  from assms obtain p ps where ps: "productions g = p # ps" by (cases "productions g") auto
  let ?s0 = "initial_lr0_state g"
  from lr0_loop_total[OF initial_lr0_inv(1)[OF assms]] obtain ext tr' where
    l: "lr0_loop g ([?s0], Map.empty, [?s0]) = Some ([?s0] @ ext, tr')"
    and d: "depth_first g ([?s0], Map.empty, [?s0]) ([?s0] @ ext, tr')"
    and i: "lr0_inv g ([?s0] @ ext) tr' []" by blast
  let ?aut = "\<lparr>lr0_states = ?s0 # ext, lr0_transitions = tr'\<rparr>"
  have "new_LR0Automaton g = Some (Inr ?aut)"
    using l ps by (simp add: new_LR0Automaton_def Let_def initial_lr0_state_def)
  then show ?thesis using d i by (intro exI[of _ ?aut] exI[of _ ext]) simp
qed


subsection \<open>Where the table holds Accept\<close>

lemma set_lr1_insert [simp]: "set (lr1_insert x xs) = insert x (set xs)"
  by (auto simp: lr1_insert_def set_insort_key)



lemma um_get_fold_touch [simp]:
  "um_get (fold (\<lambda>k m. um_touch m k d) ks m) k' d = um_get m k' d"
  by (induction ks arbitrary: m) simp_all













text \<open>
  In \<open>shared_num_grammar\<close> state 4 holds the complete item of \<open>T' -> num\<close>; its Accept
  is replaced by the reduce of \<open>X -> num\<close>, and the conflict is recorded.
\<close>

lemma accept_replaced_by_reduce:
  "(case new_LR0Automaton shared_num_grammar of
      Some (Inr aut) \<Rightarrow>
        map (\<lambda>i. (prod_addr (production i), dot_position i,
                  is_complete i \<and> is_accept_production (production i)))
          (items (lr0_states aut ! 4))
        = [(8, 1, True), (9, 1, False)]
    | _ \<Rightarrow> False)
   \<and> map_option (map_sum id (map_sum id (\<lambda>t.
         (get_action t 4 (get_end_of_input (symbol_table shared_num_grammar)), conflicts t))))
       (build_table shared_num_grammar)
     = Some (Inr (Inr (mk_action REDUCE 4,
          [''Action conflict in state 4 on terminal $: existing=acc, new=r4''])))"
  by code_simp

subsection \<open>The order of the states\<close>

text \<open>
  C7 (as amended). For every grammar with a production, so for every augmented grammar,
  the constructor of the automaton returns. State 0 is the closure of the item of
  production 0 with the dot at the left, the state at position \<open>i\<close> has id \<open>i\<close>, ids
  being given in the order of creation, and no two states have the same item set. The
  order of creation is that of a stack: the result is the one obtained by expanding, again
  and again, the waiting state that was created last.
\<close>

theorem lr0_states_numbered_depth_first:
  assumes "productions g \<noteq> []"
  shows "\<exists>aut. new_LR0Automaton g = Some (Inr aut)
     \<and> depth_first g ([initial_lr0_state g], Map.empty, [initial_lr0_state g])
          (lr0_states aut, lr0_transitions aut)
     \<and> hd (lr0_states aut) = initial_lr0_state g
     \<and> (\<forall>i < length (lr0_states aut). state_id (lr0_states aut ! i) = int i)
     \<and> distinct (map items (lr0_states aut))"
proof -
  from new_LR0Automaton_total[OF assms] obtain aut ext where
    a: "new_LR0Automaton g = Some (Inr aut)" and f: "lr0_states aut = initial_lr0_state g # ext"
    and d: "depth_first g ([initial_lr0_state g], Map.empty, [initial_lr0_state g])
              (lr0_states aut, lr0_transitions aut)"
    and i: "lr0_inv g (lr0_states aut) (lr0_transitions aut) []" by blast
  have "hd (lr0_states aut) = initial_lr0_state g" using f by simp
  moreover have "\<forall>i < length (lr0_states aut). state_id (lr0_states aut ! i) = int i"
    "distinct (map items (lr0_states aut))"
    using i by (simp_all add: lr0_inv_def)
  ultimately show ?thesis using a d by blast
qed

theorem lr0_states_numbered_depth_first_witness:
  "productions fork_grammar \<noteq> []
   \<and> (case new_LR0Automaton fork_grammar of
        Some (Inr aut) \<Rightarrow>
          depth_first fork_grammar
            ([initial_lr0_state fork_grammar], Map.empty, [initial_lr0_state fork_grammar])
            (lr0_states aut, lr0_transitions aut)
          \<and> distinct (map items (lr0_states aut))
          \<and> map (\<lambda>s. (state_id s, map (\<lambda>i. (prod_addr (production i), dot_position i)) (items s)))
               (lr0_states aut)
             = [(0, [(7, 0), (8, 0), (10, 0)]), (1, [(10, 1)]), (2, [(7, 1)]),
                (3, [(8, 1)]), (4, [(8, 2)]), (5, [(7, 2)])]
      | _ \<Rightarrow> False)"
proof -
  have ne: "productions fork_grammar \<noteq> []" by code_simp
  have e: "case new_LR0Automaton fork_grammar of
        Some (Inr aut) \<Rightarrow>
          map (\<lambda>s. (state_id s, map (\<lambda>i. (prod_addr (production i), dot_position i)) (items s)))
               (lr0_states aut)
             = [(0, [(7, 0), (8, 0), (10, 0)]), (1, [(10, 1)]), (2, [(7, 1)]),
                (3, [(8, 1)]), (4, [(8, 2)]), (5, [(7, 2)])]
      | _ \<Rightarrow> False"
    by code_simp
  from lr0_states_numbered_depth_first[OF ne] obtain aut where
    "new_LR0Automaton fork_grammar = Some (Inr aut)"
    "depth_first fork_grammar
            ([initial_lr0_state fork_grammar], Map.empty, [initial_lr0_state fork_grammar])
            (lr0_states aut, lr0_transitions aut)"
    "distinct (map items (lr0_states aut))" by blast
  then show ?thesis using ne e by simp
qed

theorem lr0_breadth_first_counterexample:
  "map_option (map_sum id (\<lambda>aut. map (\<lambda>s. (state_id s, map (\<lambda>i. (prod_addr (production i), dot_position i)) (items s)))
                                     (lr0_states aut)))
     (new_LR0Automaton fork_grammar)
   = Some (Inr [(0, [(7, 0), (8, 0), (10, 0)]), (1, [(10, 1)]), (2, [(7, 1)]),
                (3, [(8, 1)]), (4, [(8, 2)]), (5, [(7, 2)])])
   \<and> map_option (map (\<lambda>s. (state_id s, map (\<lambda>i. (prod_addr (production i), dot_position i)) (items s))))
       (bfs_states fork_grammar)
   = Some [(0, [(7, 0), (8, 0), (10, 0)]), (1, [(10, 1)]), (2, [(7, 1)]),
           (3, [(8, 1)]), (4, [(7, 2)]), (5, [(8, 2)])]"
  by code_simp

text \<open>
  The result of the breadth-first loop on \<open>fork_grammar\<close> is not a result of
  \<open>depth_first\<close>.
\<close>

lemma breadth_first_not_depth_first:
  "case lr0_loop_bfs fork_grammar
          ([initial_lr0_state fork_grammar], Map.empty, [initial_lr0_state fork_grammar]) of
     Some y \<Rightarrow>
       \<not> depth_first fork_grammar
            ([initial_lr0_state fork_grammar], Map.empty, [initial_lr0_state fork_grammar]) y
   | None \<Rightarrow> False"
proof -
  let ?w = "([initial_lr0_state fork_grammar], Map.empty :: int \<times> Symbol \<rightharpoonup> int,
             [initial_lr0_state fork_grammar])"
  have b: "map_option (\<lambda>y. map (\<lambda>s. prod_addr (production (hd (items s)))) (fst y))
             (lr0_loop_bfs fork_grammar ?w) = Some [7, 10, 7, 8, 7, 8]"
    by code_simp
  have c: "map_option (map_sum id (\<lambda>aut. map (\<lambda>s. prod_addr (production (hd (items s)))) (lr0_states aut)))
             (new_LR0Automaton fork_grammar) = Some (Inr [7, 10, 7, 8, 8, 7])"
    by code_simp
  have ne: "productions fork_grammar \<noteq> []" by code_simp
  from b obtain y where y: "lr0_loop_bfs fork_grammar ?w = Some y"
    and yb: "map (\<lambda>s. prod_addr (production (hd (items s)))) (fst y) = [7, 10, 7, 8, 7, 8]"
    by auto
  from new_LR0Automaton_total[OF ne] obtain aut where
    a: "new_LR0Automaton fork_grammar = Some (Inr aut)"
    and d: "depth_first fork_grammar ?w (lr0_states aut, lr0_transitions aut)" by blast
  have ya: "map (\<lambda>s. prod_addr (production (hd (items s)))) (lr0_states aut) = [7, 10, 7, 8, 8, 7]"
    using c a by simp
  have "\<not> depth_first fork_grammar ?w y"
  proof
    assume "depth_first fork_grammar ?w y"
    then have "y = (lr0_states aut, lr0_transitions aut)"
      using d depth_first_deterministic by blast
    then show False using yb ya by simp
  qed
  then show ?thesis using y by simp
qed

subsection \<open>Reductions by epsilon productions\<close>

lemma parse_internal_initial:
  "parse_internal g table lx = parse_loop g table (initial_parser_state lx)"
  by (simp add: parse_internal_def initial_parser_state_def Let_def split: prod.splits)
















text \<open>
  The grammar \<open>S -> A num , A -> \<epsilon>\<close> with the epsilon symbol as right-hand side: the
  generated table has no action in state 0, and the sentence \<open>num\<close> is refused before any
  reduction.
\<close>

lemma epsilon_symbol_production_refused:
  "is_epsilon_production (productions epsilon_grammar ! 2)
   \<and> (case build_table epsilon_grammar of
        Some (Inr (Inr table)) \<Rightarrow>
          parse_internal epsilon_grammar table (lexer_of [(NUMBER, ''7'')])
            = Some (Inr (ParseFailure (''Unexpected token '' @ [CHR 0x27] @ ''7'' @ [CHR 0x27]) 1 1))
      | _ \<Rightarrow> False)"
  by code_simp

subsection \<open>Nullable symbols and FIRST\<close>

text \<open>
  C8. Let \<open>g\<close> be a grammar that keeps the invariants of the data model, with cleared
  caches, and \<open>g1\<close> its state after any sequence of \<open>first_set\<close> and
  \<open>derives_epsilon\<close> queries. For every nonterminal \<open>A\<close> the three statements agree:
  \<open>A\<close> derives the empty string under the productions of \<open>g\<close>, epsilon is a member of
  the set that \<open>first_set\<close> returns for \<open>A\<close>, and \<open>derives_epsilon\<close> returns true
  for \<open>A\<close>.
\<close>

theorem nullable_first_derives_epsilon_agree:
  assumes "grammar_wf g" and "after_queries g g1" and "is_nonterminal A"
  shows "(derives_empty_string g A \<longleftrightarrow> epsilon (symbol_table g) \<in> set (fst (first_set g1 A)))
       \<and> (derives_empty_string g A \<longleftrightarrow> fst (derives_epsilon g1 A))"
proof -
  have inv: "eps_ok g g1" "first_sets_computed g1 \<longrightarrow> first_char g g1"
    using after_queries_inv[OF assms(1,2)] by simp_all
  let ?g2 = "snd (first_set g1 A)"
  have "after_queries g ?g2" using assms(2) by (rule after_first_set)
  then have c2: "first_sets_computed ?g2 \<longrightarrow> first_char g ?g2"
    using after_queries_inv[OF assms(1)] by simp
  have "first_sets_computed ?g2" by (simp add: first_set_def Let_def)
  then have fc: "first_char g ?g2" using c2 by simp
  have "fst (first_set g1 A) = um_get (first_sets ?g2) A []"
    by (simp add: first_set_def Let_def um_get_def)
  then have 1: "epsilon (symbol_table g) \<in> set (fst (first_set g1 A)) \<longleftrightarrow> nullable g A"
    using fc assms(3) by (simp add: first_char_def)
  have ne: "\<not> is_epsilon A" using assms(3) symbol_type_disjoint by blast
  have 2: "fst (derives_epsilon g1 A) \<longleftrightarrow> nullable g A"
    using derives_epsilon_ok(1)[OF inv(1), of A] eps_result_iff[OF assms(1), of A] ne by simp
  show ?thesis using 1 2 by (simp add: derives_empty_string_nullable)
qed


theorem nullable_first_derives_epsilon_agree_witness:
  "grammar_wf epsilon_grammar
   \<and> after_queries epsilon_grammar (snd (first_set epsilon_grammar (mk_symbol 2 ''S'' NONTERMINAL)))
   \<and> is_nonterminal (mk_symbol 3 ''A'' NONTERMINAL)
   \<and> derives_empty_string epsilon_grammar (mk_symbol 3 ''A'' NONTERMINAL)
   \<and> epsilon (symbol_table epsilon_grammar)
        \<in> set (fst (first_set (snd (first_set epsilon_grammar (mk_symbol 2 ''S'' NONTERMINAL)))
                    (mk_symbol 3 ''A'' NONTERMINAL)))
   \<and> fst (derives_epsilon (snd (first_set epsilon_grammar (mk_symbol 2 ''S'' NONTERMINAL)))
           (mk_symbol 3 ''A'' NONTERMINAL))
   \<and> is_nonterminal (mk_symbol 2 ''S'' NONTERMINAL)
   \<and> \<not> derives_empty_string epsilon_grammar (mk_symbol 2 ''S'' NONTERMINAL)
   \<and> epsilon (symbol_table epsilon_grammar)
        \<notin> set (fst (first_set (snd (first_set epsilon_grammar (mk_symbol 2 ''S'' NONTERMINAL)))
                    (mk_symbol 2 ''S'' NONTERMINAL)))"
proof -
  let ?g1 = "snd (first_set epsilon_grammar (mk_symbol 2 ''S'' NONTERMINAL))"
  have wf: "grammar_wf epsilon_grammar" by code_simp
  have fresh: "\<not> epsilon_computed epsilon_grammar" "\<not> first_sets_computed epsilon_grammar"
    by code_simp+
  have aq: "after_queries epsilon_grammar ?g1"
    by (rule after_first_set, rule after_none) (rule fresh)+
  have nA: "is_nonterminal (mk_symbol 3 ''A'' NONTERMINAL)" by code_simp
  have nS: "is_nonterminal (mk_symbol 2 ''S'' NONTERMINAL)" by code_simp
  have dA: "fst (derives_epsilon ?g1 (mk_symbol 3 ''A'' NONTERMINAL))" by code_simp
  have dS: "\<not> fst (derives_epsilon ?g1 (mk_symbol 2 ''S'' NONTERMINAL))" by code_simp
  show ?thesis
    using nullable_first_derives_epsilon_agree[OF wf aq nA]
      nullable_first_derives_epsilon_agree[OF wf aq nS] wf aq nA nS dA dS
    by blast
qed

subsection \<open>Queries of the FIRST and FOLLOW caches\<close>

text \<open>
  C9. \<open>first_set\<close> and \<open>follow_set\<close> return for every grammar state and every symbol:
  the iterations they run are total functions, and the state they return has its cache
  computed. For a symbol without entry in that cache the returned set is empty. A symbol
  the grammar does not know (not registered in the symbol table, not the start symbol, in
  no production) has no entry once the cache is computed from a state where it was not,
  so both queries return the empty set for it.
\<close>

theorem first_set_follow_set_missing_entry:
  "first_sets_computed (snd (first_set g s)) \<and> follow_sets_computed (snd (follow_set g s))
   \<and> (map_of (first_sets (snd (first_set g s))) s = None \<longrightarrow> fst (first_set g s) = [])
   \<and> (map_of (follow_sets (snd (follow_set g s))) s = None \<longrightarrow> fst (follow_set g s) = [])
   \<and> (s \<notin> known_symbols g \<and> \<not> first_sets_computed g \<longrightarrow>
         map_of (first_sets (snd (first_set g s))) s = None \<and> fst (first_set g s) = [])
   \<and> (s \<notin> known_symbols g \<and> \<not> follow_sets_computed g \<longrightarrow>
         map_of (follow_sets (snd (follow_set g s))) s = None \<and> fst (follow_set g s) = [])"
proof -
  have a: "map_of (first_sets (snd (first_set g s))) s = None \<Longrightarrow> fst (first_set g s) = []"
    by (simp add: first_set_def Let_def)
  have b: "map_of (follow_sets (snd (follow_set g s))) s = None \<Longrightarrow> fst (follow_set g s) = []"
    by (simp add: follow_set_def Let_def)
  have c: "map_of (first_sets (snd (first_set g s))) s = None"
    if "s \<notin> known_symbols g" "\<not> first_sets_computed g"
    using that compute_first_sets_dom[of g] by (auto simp: first_set_def Let_def um_dom_none)
  have d: "map_of (follow_sets (snd (follow_set g s))) s = None"
    if "s \<notin> known_symbols g" "\<not> follow_sets_computed g"
    using that compute_follow_sets_dom[of g] by (auto simp: follow_set_def Let_def um_dom_none)
  show ?thesis
  proof (intro conjI impI)
    show "first_sets_computed (snd (first_set g s))"
      by (simp add: first_set_def Let_def compute_first_sets_def del: first_loop.simps)
    show "follow_sets_computed (snd (follow_set g s))"
      by (simp add: follow_set_def Let_def compute_follow_sets_def del: follow_loop.simps)
    show "fst (first_set g s) = []" if "map_of (first_sets (snd (first_set g s))) s = None"
      using that by (rule a)
    show "fst (follow_set g s) = []" if "map_of (follow_sets (snd (follow_set g s))) s = None"
      using that by (rule b)
    show "map_of (first_sets (snd (first_set g s))) s = None"
      if "s \<notin> known_symbols g \<and> \<not> first_sets_computed g"
      using that c by simp
    show "fst (first_set g s) = []" if "s \<notin> known_symbols g \<and> \<not> first_sets_computed g"
      using that a c by simp
    show "map_of (follow_sets (snd (follow_set g s))) s = None"
      if "s \<notin> known_symbols g \<and> \<not> follow_sets_computed g"
      using that d by simp
    show "fst (follow_set g s) = []" if "s \<notin> known_symbols g \<and> \<not> follow_sets_computed g"
      using that b d by simp
  qed
qed


theorem first_set_follow_set_missing_entry_witness:
  "mk_symbol 99 ''Z'' NONTERMINAL \<notin> known_symbols demo_augmented
   \<and> \<not> first_sets_computed demo_augmented \<and> \<not> follow_sets_computed demo_augmented
   \<and> map_of (first_sets (snd (first_set demo_augmented (mk_symbol 99 ''Z'' NONTERMINAL))))
         (mk_symbol 99 ''Z'' NONTERMINAL) = None
   \<and> fst (first_set demo_augmented (mk_symbol 99 ''Z'' NONTERMINAL)) = []
   \<and> map_of (follow_sets (snd (follow_set demo_augmented (mk_symbol 99 ''Z'' NONTERMINAL))))
         (mk_symbol 99 ''Z'' NONTERMINAL) = None
   \<and> fst (follow_set demo_augmented (mk_symbol 99 ''Z'' NONTERMINAL)) = []"
proof -
  have k: "mk_symbol 99 ''Z'' NONTERMINAL \<notin> known_symbols demo_augmented" by code_simp
  have f: "\<not> first_sets_computed demo_augmented" "\<not> follow_sets_computed demo_augmented"
    by code_simp+
  show ?thesis
    using first_set_follow_set_missing_entry[of demo_augmented "mk_symbol 99 ''Z'' NONTERMINAL"] k f
    by blast
qed

end
